theory Spec2Isabelle
  imports Complex_Main
begin

section \<open>JavaScript numbers\<close>

text \<open>
  The source computes with JavaScript numbers. A division by zero does not raise: it gives
  an infinity or NaN, and both flow on through \<open>Math.log2\<close>, \<open>Math.floor\<close>,
  \<open>Math.pow\<close>, the multiplications and the loop test of \<open>scaleAndCompress\<close>.
  A number is therefore a finite value, one of the two infinities, or NaN. Finite values are
  exact (rationals, or integers where the source holds the result of \<open>Math.floor\<close>): each
  operator and each \<open>Math\<close> function is taken at its mathematical value, without the
  rounding of double precision. The operands of the source are pixel sizes and the two
  fields of the configuration, all non-negative, so the sign of zero is not recorded.
\<close>

datatype 'a jsnum = Fin 'a | PInf | NInf | NaN

text \<open>The relational operator \<open><\<close>: any comparison with NaN is false.\<close>

fun js_less :: "('a::linorder) jsnum \<Rightarrow> 'a jsnum \<Rightarrow> bool" where
  "js_less NaN _ = False"
| "js_less _ NaN = False"
| "js_less (Fin a) (Fin b) = (a < b)"
| "js_less (Fin a) PInf = True"
| "js_less (Fin a) NInf = False"
| "js_less PInf _ = False"
| "js_less NInf NInf = False"
| "js_less NInf _ = True"

text \<open>The operator \<open>*\<close>: zero times an infinity is NaN.\<close>

fun js_mul :: "rat jsnum \<Rightarrow> rat jsnum \<Rightarrow> rat jsnum" where
  "js_mul NaN _ = NaN"
| "js_mul _ NaN = NaN"
| "js_mul (Fin a) (Fin b) = Fin (a * b)"
| "js_mul (Fin a) PInf = (if a = 0 then NaN else if 0 < a then PInf else NInf)"
| "js_mul (Fin a) NInf = (if a = 0 then NaN else if 0 < a then NInf else PInf)"
| "js_mul PInf (Fin b) = (if b = 0 then NaN else if 0 < b then PInf else NInf)"
| "js_mul NInf (Fin b) = (if b = 0 then NaN else if 0 < b then NInf else PInf)"
| "js_mul PInf PInf = PInf"
| "js_mul PInf NInf = NInf"
| "js_mul NInf PInf = NInf"
| "js_mul NInf NInf = PInf"

text \<open>
  The operator \<open>/\<close>: a non-zero value divided by zero is an infinity, zero divided by zero
  is NaN, and so is an infinity divided by an infinity.
\<close>

fun js_div :: "rat jsnum \<Rightarrow> rat jsnum \<Rightarrow> rat jsnum" where
  "js_div NaN _ = NaN"
| "js_div _ NaN = NaN"
| "js_div (Fin a) (Fin b) =
     (if b = 0 then (if a = 0 then NaN else if 0 < a then PInf else NInf) else Fin (a / b))"
| "js_div (Fin a) PInf = Fin 0"
| "js_div (Fin a) NInf = Fin 0"
| "js_div PInf (Fin b) = (if 0 \<le> b then PInf else NInf)"
| "js_div NInf (Fin b) = (if 0 \<le> b then NInf else PInf)"
| "js_div PInf _ = NaN"
| "js_div NInf _ = NaN"

text \<open>
  \<open>Math.round\<close>: the nearest integer, a tie going up, which is \<open>\<lfloor>x + 1/2\<rfloor>\<close>;
  infinities and NaN are returned as they are.
\<close>

fun Math_round :: "rat jsnum \<Rightarrow> rat jsnum" where
  "Math_round (Fin x) = Fin (of_int \<lfloor>x + 1 / 2\<rfloor>)"
| "Math_round PInf = PInf"
| "Math_round NInf = NInf"
| "Math_round NaN = NaN"

text \<open>
  \<open>Math.floor(Math.log2(x))\<close>, the only way the source uses the logarithm. For a finite
  \<open>x \<ge> 1\<close> the result counts how often \<open>x\<close> can be halved before it drops below 2; for
  \<open>0 < x < 1\<close> it is minus the number of doublings that bring \<open>x\<close> up to 1. The logarithm
  of zero is \<open>-Infinity\<close>, that of a negative number is NaN, that of \<open>Infinity\<close> is
  \<open>Infinity\<close>, and \<open>Math.floor\<close> keeps all three.
\<close>

function halvings :: "rat \<Rightarrow> nat" where
  "halvings x = (if x < 2 then 0 else Suc (halvings (x / 2)))"
  by pat_completeness auto
termination
proof (relation "measure (\<lambda>x. nat \<lfloor>x\<rfloor>)")
  show "wf (measure (\<lambda>x::rat. nat \<lfloor>x\<rfloor>))" by simp
next
  fix x :: rat
  assume "\<not> x < 2"
  then have "x / 2 \<le> x - 1" by simp
  then have "\<lfloor>x / 2\<rfloor> \<le> \<lfloor>x - 1\<rfloor>" by (rule floor_mono)
  moreover have "1 \<le> \<lfloor>x\<rfloor>" using \<open>\<not> x < 2\<close> by (simp add: le_floor_iff)
  ultimately show "(x / 2, x) \<in> measure (\<lambda>x. nat \<lfloor>x\<rfloor>)" by simp
qed

function doublings :: "rat \<Rightarrow> nat" where
  "doublings x = (if x \<le> 0 \<or> 1 \<le> x then 0 else Suc (doublings (2 * x)))"
  by pat_completeness auto
termination
proof (relation "measure (\<lambda>x. nat \<lfloor>1 / x\<rfloor>)")
  show "wf (measure (\<lambda>x::rat. nat \<lfloor>1 / x\<rfloor>))" by simp
next
  fix x :: rat
  assume "\<not> (x \<le> 0 \<or> 1 \<le> x)"
  then have x: "0 < x" "x < 1" by simp_all
  have one: "1 \<le> \<lfloor>1 / x\<rfloor>" using x by (simp add: le_floor_iff)
  have "\<lfloor>1 / (2 * x)\<rfloor> < \<lfloor>1 / x\<rfloor>"
  proof (cases "2 * x \<le> 1")
    case True
    then have "1 / (2 * x) \<le> 1 / x - 1" using x by (simp add: field_simps)
    then have "\<lfloor>1 / (2 * x)\<rfloor> \<le> \<lfloor>1 / x - 1\<rfloor>" by (rule floor_mono)
    then show ?thesis by simp
  next
    case False
    then have "1 / (2 * x) < 1" using x by (simp add: field_simps)
    then have "\<lfloor>1 / (2 * x)\<rfloor> < 1" by (simp add: floor_less_iff)
    then show ?thesis using one by linarith
  qed
  then show "(2 * x, x) \<in> measure (\<lambda>x. nat \<lfloor>1 / x\<rfloor>)" using one by simp
qed

fun floor_log2 :: "rat jsnum \<Rightarrow> int jsnum" where
  "floor_log2 (Fin x) =
     (if x < 0 then NaN
      else if x = 0 then NInf
      else if 1 \<le> x then Fin (int (halvings x))
      else Fin (- int (doublings x)))"
| "floor_log2 PInf = PInf"
| "floor_log2 NInf = NaN"
| "floor_log2 NaN = NaN"

text \<open>\<open>Math.pow(2, n)\<close> for the integer, infinite or NaN exponent that \<open>floor_log2\<close> gives.\<close>

fun pow2 :: "int jsnum \<Rightarrow> rat jsnum" where
  "pow2 (Fin k) = Fin (if 0 \<le> k then 2 ^ nat k else 1 / 2 ^ nat (- k))"
| "pow2 PInf = PInf"
| "pow2 NInf = Fin 0"
| "pow2 NaN = NaN"

section \<open>The objects of the program\<close>

text \<open>
  \<open>class Resizer\<close> has the two fields that its constructor stores. The documentation
  of the constructor describes them as a maximum dimension in pixels and a JPEG compression
  level, and the usage example passes 500 and 75: they are non-negative integers.
\<close>

record resizer =
  maxSize :: nat
  compression :: nat

definition Resizer :: "nat \<Rightarrow> nat \<Rightarrow> resizer" where
  "Resizer maxSize' compression' = \<lparr>maxSize = maxSize', compression = compression'\<rparr>"

text \<open>
  A decoded \<open>Image\<close>: its pixel size, which the host gives as unsigned integers, and the
  data URL it was loaded from (\<open>img.src\<close>), which stands for its content.
\<close>

record image =
  width :: nat
  height :: nat
  src :: string

text \<open>
  A \<open>canvas\<close> element holds the width and height that the source assigns to it. A newly
  created canvas is 300 by 150.
\<close>

record canvas =
  cwidth :: "rat jsnum"
  cheight :: "rat jsnum"

definition createCanvas :: canvas where
  "createCanvas = \<lparr>cwidth = Fin 300, cheight = Fin 150\<rparr>"

text \<open>A \<open>File\<close> of the File API: its declared type and its bytes.\<close>

record jsfile =
  ftype :: string
  fdata :: string

text \<open>
  The calls to the host that the source issues are recorded in order. What the host paints
  is outside the embedding; whether a call returns or throws is part of it (see
  \<open>drawImage\<close> below).
  \<^item> \<open>DrawImage t s dw dh\<close> is \<open>drawImage(s, 0, 0, dw, dh)\<close> on the context of \<open>t\<close>;
  \<^item> \<open>DrawRegion cw ch\<close> is \<open>finalContext.drawImage(canvas, 0, 0, cw, ch, 0, 0, cw, ch)\<close>;
  \<^item> \<open>ToDataURL q\<close> is \<open>final.toDataURL('image/jpeg', q)\<close>;
  \<^item> \<open>ReadAsDataURL\<close> is \<open>reader.readAsDataURL(file)\<close>;
  \<^item> \<open>LoadImage u\<close> is the assignment \<open>img.src = u\<close>, which starts the decoding.
\<close>

datatype surface = TheImage | WorkingCanvas | FinalCanvas

datatype hostcall =
    DrawImage surface surface "rat jsnum" "rat jsnum"
  | DrawRegion "rat jsnum" "rat jsnum"
  | ToDataURL "rat jsnum"
  | ReadAsDataURL
  | LoadImage string

text \<open>
  What the host answers: the data URL that the \<open>FileReader\<close> delivers with its
  \<open>load\<close> event (\<open>None\<close> when the event never fires), the size of the image decoded from a
  data URL (\<open>None\<close> when the \<open>load\<close> event of the image never fires), and the data URL that
  \<open>toDataURL\<close> encodes from the final canvas.
\<close>

record host =
  readAsDataURL :: "jsfile \<Rightarrow> string option"
  decode :: "string \<Rightarrow> (nat \<times> nat) option"
  toDataURL :: "image \<Rightarrow> canvas \<Rightarrow> rat jsnum \<Rightarrow> string"

text \<open>
  A promise is pending, resolved with a data URL, or rejected with a reason. Only the first
  call of \<open>resolve\<close> or \<open>reject\<close> settles it; resolving with another promise adopts the
  state of that promise; \<open>then\<close> maps the value of a resolved promise.
\<close>

datatype promise = Pending | Resolved string | Rejected string

fun reject :: "promise \<Rightarrow> string \<Rightarrow> promise" where
  "reject Pending reason = Rejected reason"
| "reject p reason = p"

fun resolve :: "promise \<Rightarrow> promise \<Rightarrow> promise" where
  "resolve Pending q = q"
| "resolve p q = p"

fun then_promise :: "promise \<Rightarrow> (string \<Rightarrow> string) \<Rightarrow> promise" where
  "then_promise (Resolved v) f = Resolved (f v)"
| "then_promise p f = p"

section \<open>scaleAndCompress\<close>

text \<open>
  The state of one call: the object the method runs on, the final canvas, the processing
  canvas (absent before it is created and after \<open>canvas = null\<close>) and the host calls so far.
\<close>

record state =
  self :: resizer
  final :: canvas
  working :: "canvas option"
  calls :: "hostcall list"

definition num :: "nat \<Rightarrow> rat jsnum" where
  "num k = Fin (of_nat k)"

text \<open>The new dimensions \<open>cWidth\<close> and \<open>cHeight\<close> (lines 40 to 46).\<close>

definition cWidth :: "resizer \<Rightarrow> image \<Rightarrow> rat jsnum" where
  "cWidth r img =
     (if width img > height img then num (maxSize r)
      else Math_round (js_div (js_mul (num (width img)) (num (maxSize r))) (num (height img))))"

definition cHeight :: "resizer \<Rightarrow> image \<Rightarrow> rat jsnum" where
  "cHeight r img =
     (if width img > height img
      then Math_round (js_div (js_mul (num (height img)) (num (maxSize r))) (num (width img)))
      else num (maxSize r))"

text \<open>The variables \<open>n\<close>, \<open>n_pow\<close>, \<open>w\<close> and \<open>h\<close> (lines 50 to 56).\<close>

definition scale_n :: "resizer \<Rightarrow> image \<Rightarrow> int jsnum" where
  "scale_n r img = floor_log2 (js_div (num (width img)) (cWidth r img))"

definition scale_n_pow :: "resizer \<Rightarrow> image \<Rightarrow> rat jsnum" where
  "scale_n_pow r img = pow2 (scale_n r img)"

definition scale_w :: "resizer \<Rightarrow> image \<Rightarrow> rat jsnum" where
  "scale_w r img = js_mul (cWidth r img) (scale_n_pow r img)"

definition scale_h :: "resizer \<Rightarrow> image \<Rightarrow> rat jsnum" where
  "scale_h r img = js_mul (cHeight r img) (scale_n_pow r img)"

definition issue :: "hostcall \<Rightarrow> state \<Rightarrow> state" where
  "issue c st = st\<lparr>calls := calls st @ [c]\<rparr>"

text \<open>
  The size that a canvas element takes when a number is assigned to its \<open>width\<close> or
  \<open>height\<close>. The attributes are of the type \<open>unsigned long\<close>: the number is converted
  as Web IDL prescribes (NaN and the infinities to 0, other numbers truncated towards zero
  and reduced modulo \<open>2^32\<close>), and the HTML Standard replaces a value above \<open>2^31 - 1\<close>
  by the default of the attribute, 300 for the width and 150 for the height.
\<close>

fun is_finite :: "'a jsnum \<Rightarrow> bool" where
  "is_finite (Fin x) = True"
| "is_finite v = False"

fun unsigned_long :: "rat jsnum \<Rightarrow> nat" where
  "unsigned_long (Fin x) = nat ((if 0 \<le> x then \<lfloor>x\<rfloor> else - \<lfloor>- x\<rfloor>) mod 2 ^ 32)"
| "unsigned_long v = 0"

definition canvas_dimension :: "nat \<Rightarrow> rat jsnum \<Rightarrow> nat" where
  "canvas_dimension dflt v =
     (if unsigned_long v \<le> 2147483647 then unsigned_long v else dflt)"

definition empty_bitmap :: "canvas \<Rightarrow> bool" where
  "empty_bitmap c =
     (canvas_dimension 300 (cwidth c) = 0 \<or> canvas_dimension 150 (cheight c) = 0)"

text \<open>
  A statement of the executor either returns or throws; both leave a state behind.
\<close>

datatype completion = Returns state | Throws string state

fun state_of :: "completion \<Rightarrow> state" where
  "state_of (Returns st) = st"
| "state_of (Throws e st) = st"

text \<open>
  \<open>drawImage\<close> as the HTML Standard defines it, as far as the flow of control goes. The
  call returns at once, drawing nothing, when one of its numeric arguments is infinite or
  NaN. Otherwise the source is checked: a source that is a canvas whose width or height is
  zero makes the call throw an \<open>InvalidStateError\<close>; an image that has fired its \<open>load\<close>
  event never does.
\<close>

fun draw_args :: "hostcall \<Rightarrow> rat jsnum list" where
  "draw_args (DrawImage t s dw dh) = [Fin 0, Fin 0, dw, dh]"
| "draw_args (DrawRegion cw ch) = [Fin 0, Fin 0, cw, ch, Fin 0, Fin 0, cw, ch]"
| "draw_args c = []"

fun draw_source :: "hostcall \<Rightarrow> state \<Rightarrow> canvas option" where
  "draw_source (DrawImage t TheImage dw dh) st = None"
| "draw_source (DrawImage t WorkingCanvas dw dh) st = working st"
| "draw_source (DrawImage t FinalCanvas dw dh) st = Some (final st)"
| "draw_source (DrawRegion cw ch) st = working st"
| "draw_source c st = None"

definition drawImage :: "hostcall \<Rightarrow> state \<Rightarrow> completion" where
  "drawImage c st =
     (if \<not> list_all is_finite (draw_args c) then Returns (issue c st)
      else case draw_source c st of
             None \<Rightarrow> Returns (issue c st)
           | Some b \<Rightarrow>
               if empty_bitmap b then Throws ''InvalidStateError'' (issue c st)
               else Returns (issue c st))"

text \<open>
  The loop \<open>for (let i = 0; i < n; ++i)\<close> of lines 70 to 72. Its bound is a JavaScript
  number, so the loop need not end: the result \<open>None\<close> is a run that never leaves the loop.
  An exception from the call in its body leaves the loop and the executor.
\<close>

partial_function (option) scaledown ::
  "nat \<Rightarrow> int jsnum \<Rightarrow> rat jsnum \<Rightarrow> rat jsnum \<Rightarrow> state \<Rightarrow> completion option" where
  "scaledown i n w h st =
     (if js_less (Fin (int i)) n
      then (case drawImage
                   (DrawImage WorkingCanvas WorkingCanvas (js_div w (Fin 2)) (js_div h (Fin 2)))
                   st of
              Throws e st' \<Rightarrow> Some (Throws e st')
            | Returns st' \<Rightarrow> scaledown (Suc i) n w h st')
      else Some (Returns st))"

text \<open>Lines 31 to 93: everything before the encoding.\<close>

definition scale :: "resizer \<Rightarrow> image \<Rightarrow> completion option" where
  "scale r img =
     (let st = \<lparr>self = r, final = createCanvas, working = None, calls = []\<rparr> in
      if width img > maxSize r \<or> height img > maxSize r then
        (let cW = cWidth r img; cH = cHeight r img;
             w = scale_w r img; h = scale_h r img;
             st = st\<lparr>working := Some createCanvas\<rparr>;
             st = st\<lparr>working := Some \<lparr>cwidth = w, cheight = h\<rparr>\<rparr>
         in case drawImage (DrawImage WorkingCanvas TheImage w h) st of
              Throws e st \<Rightarrow> Some (Throws e st)
            | Returns st \<Rightarrow>
                (case scaledown 0 (scale_n r img) w h st of
                   None \<Rightarrow> None
                 | Some (Throws e st) \<Rightarrow> Some (Throws e st)
                 | Some (Returns st) \<Rightarrow>
                     (let st = st\<lparr>final := \<lparr>cwidth = cW, cheight = cH\<rparr>\<rparr>
                      in case drawImage (DrawRegion cW cH) st of
                           Throws e st \<Rightarrow> Some (Throws e st)
                         | Returns st \<Rightarrow> Some (Returns (st\<lparr>working := None\<rparr>)))))
      else
        (let st = st\<lparr>final := \<lparr>cwidth = num (width img), cheight = num (height img)\<rparr>\<rparr>
         in Some (drawImage
                    (DrawImage FinalCanvas TheImage (num (width img)) (num (height img))) st)))"

text \<open>
  The result of a method call that returns: the promise it leaves, the object afterwards and
  the host calls it issued.
\<close>

record outcome =
  settled :: promise
  obj :: resizer
  trace :: "hostcall list"

text \<open>
  Line 96 resolves the promise with the encoding of the final canvas. The source never calls
  \<open>reject\<close> here; an exception thrown inside the executor of a promise rejects that
  promise, with the exception as the reason.
\<close>

definition scaleAndCompress :: "host \<Rightarrow> resizer \<Rightarrow> image \<Rightarrow> outcome option" where
  "scaleAndCompress hst r img =
     (case scale r img of
        None \<Rightarrow> None
      | Some (Throws e st) \<Rightarrow>
          Some \<lparr>settled = reject Pending e, obj = self st, trace = calls st\<rparr>
      | Some (Returns st) \<Rightarrow>
          (let q = js_div (num (compression (self st))) (Fin 100)
           in Some \<lparr>settled = resolve Pending (Resolved (toDataURL hst img (final st) q)),
                     obj = self st,
                     trace = calls st @ [ToDataURL q]\<rparr>))"

section \<open>processFile\<close>

text \<open>
  \<open>file.type.match('image.*')\<close> builds the regular expression \<open>image.*\<close>, which is not
  anchored and whose \<open>.*\<close> matches the empty string: it matches exactly when the text
  \<open>image\<close> occurs somewhere in the declared type.
\<close>

fun match_image :: "string \<Rightarrow> bool" where
  "match_image [] = False"
| "match_image (c # cs) = (take 5 (c # cs) = ''image'' \<or> match_image cs)"

text \<open>
  The body of \<open>processFile\<close>. After \<open>reject\<close> there is no \<open>return\<close>: the reader is
  created and started whatever the type is. The listener of the reader loads the image, and
  the listener of the image resolves the promise with the shorter of the two data URLs.
\<close>

definition processFile :: "host \<Rightarrow> resizer \<Rightarrow> jsfile \<Rightarrow> outcome option" where
  "processFile hst r f =
     (let p = (if \<not> match_image (ftype f) then reject Pending ''The file is not an image.''
               else Pending)
      in case readAsDataURL hst f of
           None \<Rightarrow> Some \<lparr>settled = p, obj = r, trace = [ReadAsDataURL]\<rparr>
         | Some result \<Rightarrow>
             (case decode hst result of
                None \<Rightarrow> Some \<lparr>settled = p, obj = r, trace = [ReadAsDataURL, LoadImage result]\<rparr>
              | Some (iw, ih) \<Rightarrow>
                  (case scaleAndCompress hst r \<lparr>width = iw, height = ih, src = result\<rparr> of
                     None \<Rightarrow> None
                   | Some out \<Rightarrow>
                       Some \<lparr>settled =
                               resolve p
                                 (then_promise (settled out)
                                    (\<lambda>generatedURL.
                                       if length generatedURL < length result then generatedURL
                                       else result)),
                             obj = obj out,
                             trace = [ReadAsDataURL, LoadImage result] @ trace out\<rparr>)))"

text \<open>
  How often the body of the loop runs when the loop ends: \<open>n\<close> times for a positive
  integer bound, never for a bound that is not positive, is \<open>-Infinity\<close> or is NaN.
\<close>

fun iterations :: "int jsnum \<Rightarrow> nat" where
  "iterations (Fin k) = nat k"
| "iterations n = 0"

text \<open>
  Whether the call in the body of the loop throws: its two sizes are finite and the
  processing canvas has a width or a height of zero. The call does not change the canvas,
  so this holds for every turn of the loop or for none.
\<close>

definition halving_throws :: "rat jsnum \<Rightarrow> rat jsnum \<Rightarrow> state \<Rightarrow> bool" where
  "halving_throws w h st =
     (is_finite (js_div w (Fin 2)) \<and> is_finite (js_div h (Fin 2)) \<and>
      (case working st of None \<Rightarrow> False | Some b \<Rightarrow> empty_bitmap b))"

section \<open>A host with fixed answers\<close>

text \<open>
  To run the embedding on concrete inputs: a host whose reader delivers \<open>result\<close>, whose
  decoder reports the size \<open>dims\<close> and whose encoder returns \<open>generatedURL\<close>.
\<close>

definition fixed_host :: "string \<Rightarrow> nat \<times> nat \<Rightarrow> string \<Rightarrow> host" where
  "fixed_host result dims generatedURL =
     \<lparr>readAsDataURL = (\<lambda>f. Some result),
      decode = (\<lambda>u. Some dims),
      toDataURL = (\<lambda>img c q. generatedURL)\<rparr>"

section \<open>The logarithm and the loop\<close>

declare halvings.simps [simp del] doublings.simps [simp del]

lemma halvings_bounds: "1 \<le> x \<Longrightarrow> 2 ^ halvings x \<le> x \<and> x < 2 * 2 ^ halvings x"
proof (induction x rule: halvings.induct)
  case (1 x)
  show ?case
  proof (cases "x < 2")
    case True
    then show ?thesis using "1.prems" by (simp add: halvings.simps [of x])
  next
    case False
    then have "1 \<le> x / 2" by simp
    with "1.IH" False have "2 ^ halvings (x / 2) \<le> x / 2 \<and> x / 2 < 2 * 2 ^ halvings (x / 2)"
      by blast
    then show ?thesis using False by (simp add: halvings.simps [of x])
  qed
qed

lemma doublings_bounds:
  "0 < x \<Longrightarrow> x < 1 \<Longrightarrow> 1 \<le> x * 2 ^ doublings x \<and> x * 2 ^ doublings x < 2"
proof (induction x rule: doublings.induct)
  case (1 x)
  show ?case
  proof (cases "2 * x < 1")
    case True
    with "1.IH" "1.prems" have "1 \<le> 2 * x * 2 ^ doublings (2 * x) \<and> 2 * x * 2 ^ doublings (2 * x) < 2"
      by simp
    then show ?thesis using "1.prems" by (simp add: doublings.simps [of x] mult_ac)
  next
    case False
    then have "doublings (2 * x) = 0" by (simp add: doublings.simps [of "2 * x"])
    then show ?thesis using "1.prems" False by (simp add: doublings.simps [of x])
  qed
qed

lemma halvings_log:
  assumes "1 \<le> x"
  shows "int (halvings x) = \<lfloor>log 2 (real_of_rat x)\<rfloor>"
proof -
  from halvings_bounds [OF assms]
  have "2 ^ halvings x \<le> x" "x < 2 * 2 ^ halvings x" by simp_all
  then have "real_of_rat (2 ^ halvings x) \<le> real_of_rat x"
    "real_of_rat x < real_of_rat (2 * 2 ^ halvings x)"
    by (simp_all only: of_rat_less_eq of_rat_less)
  then have b: "2 ^ halvings x \<le> real_of_rat x" "real_of_rat x < 2 ^ Suc (halvings x)"
    by (simp_all add: of_rat_mult of_rat_power)
  have pos: "0 < real_of_rat x" using assms by (simp add: zero_less_of_rat_iff)
  have p1: "2 powr real_of_int (int (halvings x)) = 2 ^ halvings x"
    by (simp add: powr_realpow)
  have "real_of_int (int (halvings x) + 1) = real (Suc (halvings x))" by simp
  then have p2: "2 powr real_of_int (int (halvings x) + 1) = 2 ^ Suc (halvings x)"
    by (simp only: powr_realpow zero_less_numeral)
  have "(\<lfloor>log 2 (real_of_rat x)\<rfloor> = int (halvings x)) =
        (2 powr real_of_int (int (halvings x)) \<le> real_of_rat x \<and>
         real_of_rat x < 2 powr real_of_int (int (halvings x) + 1))"
    by (rule floor_log_eq_powr_iff [OF pos]) simp
  then have "\<lfloor>log 2 (real_of_rat x)\<rfloor> = int (halvings x)"
    unfolding p1 p2 using b by simp
  then show ?thesis by simp
qed

lemma doublings_log:
  assumes "0 < x" "x < 1"
  shows "- int (doublings x) = \<lfloor>log 2 (real_of_rat x)\<rfloor>"
proof -
  let ?d = "doublings x"
  from doublings_bounds [OF assms]
  have "1 \<le> x * 2 ^ ?d" "x * 2 ^ ?d < 2" by simp_all
  then have "real_of_rat 1 \<le> real_of_rat (x * 2 ^ ?d)" "real_of_rat (x * 2 ^ ?d) < real_of_rat 2"
    by (simp_all only: of_rat_less_eq of_rat_less)
  then have b: "1 \<le> real_of_rat x * 2 ^ ?d" "real_of_rat x * 2 ^ ?d < 2"
    by (simp_all add: of_rat_mult of_rat_power)
  have pos: "0 < real_of_rat x" using assms by (simp add: zero_less_of_rat_iff)
  have p1: "2 powr real_of_int (- int ?d) = 1 / 2 ^ ?d"
    by (simp add: powr_minus powr_realpow field_simps)
  have "2 powr (1 - real ?d) = 2 powr 1 / 2 powr real ?d" by (rule powr_diff)
  then have p2: "2 powr real_of_int (- int ?d + 1) = 2 / 2 ^ ?d"
    by (simp add: powr_realpow)
  have "(\<lfloor>log 2 (real_of_rat x)\<rfloor> = - int ?d) =
        (2 powr real_of_int (- int ?d) \<le> real_of_rat x \<and>
         real_of_rat x < 2 powr real_of_int (- int ?d + 1))"
    by (rule floor_log_eq_powr_iff [OF pos]) simp
  then have "\<lfloor>log 2 (real_of_rat x)\<rfloor> = - int ?d"
    unfolding p1 p2 using b by (simp add: field_simps)
  then show ?thesis by simp
qed

lemma floor_log2_real:
  "0 < x \<Longrightarrow> floor_log2 (Fin x) = Fin \<lfloor>log 2 (real_of_rat x)\<rfloor>"
  using halvings_log [of x] doublings_log [of x] by (cases "1 \<le> x") simp_all

lemma state_of_drawImage: "state_of (drawImage c st) = issue c st"
  by (simp add: drawImage_def split: option.splits)

lemma drawImage_from_image:
  "drawImage (DrawImage t TheImage dw dh) st = Returns (issue (DrawImage t TheImage dw dh) st)"
  by (simp add: drawImage_def)

lemma drawImage_halving:
  "drawImage (DrawImage WorkingCanvas WorkingCanvas (js_div w (Fin 2)) (js_div h (Fin 2))) st =
   (if halving_throws w h st
    then Throws ''InvalidStateError''
           (issue (DrawImage WorkingCanvas WorkingCanvas (js_div w (Fin 2)) (js_div h (Fin 2))) st)
    else Returns
           (issue (DrawImage WorkingCanvas WorkingCanvas (js_div w (Fin 2)) (js_div h (Fin 2))) st))"
  by (auto simp: drawImage_def halving_throws_def split: option.splits)

lemma halving_throws_issue [simp]: "halving_throws w h (issue c st) = halving_throws w h st"
  by (simp add: halving_throws_def issue_def)

lemma halving_throws_calls [simp]:
  "halving_throws w h (st\<lparr>calls := cs\<rparr>) = halving_throws w h st"
  by (simp add: halving_throws_def)

lemma scaledown_stop:
  "\<not> js_less (Fin (int i)) n \<Longrightarrow> scaledown i n w h st = Some (Returns st)"
  by (subst scaledown.simps) simp

lemma scaledown_throws:
  "js_less (Fin (int i)) n \<Longrightarrow> halving_throws w h st \<Longrightarrow>
   scaledown i n w h st =
   Some (Throws ''InvalidStateError''
     (issue (DrawImage WorkingCanvas WorkingCanvas (js_div w (Fin 2)) (js_div h (Fin 2))) st))"
  by (subst scaledown.simps) (simp add: drawImage_halving)

lemma scaledown_step:
  "js_less (Fin (int i)) n \<Longrightarrow> \<not> halving_throws w h st \<Longrightarrow>
   scaledown i n w h st =
   scaledown (Suc i) n w h
     (issue (DrawImage WorkingCanvas WorkingCanvas (js_div w (Fin 2)) (js_div h (Fin 2))) st)"
  by (subst scaledown.simps) (simp add: drawImage_halving)

lemma scaledown_Fin:
  "\<not> halving_throws w h st \<Longrightarrow>
   scaledown i (Fin k) w h st =
   Some (Returns (st\<lparr>calls := calls st @
       replicate (nat (k - int i))
         (DrawImage WorkingCanvas WorkingCanvas (js_div w (Fin 2)) (js_div h (Fin 2)))\<rparr>))"
proof (induction "nat (k - int i)" arbitrary: i st)
  case 0
  then have "\<not> js_less (Fin (int i)) (Fin k)" by simp
  then show ?case using 0 by (simp add: scaledown_stop)
next
  case (Suc m)
  then have lt: "js_less (Fin (int i)) (Fin k)" by simp
  have m: "m = nat (k - int (Suc i))" using Suc.hyps(2) by simp
  have r: "nat (k - int i) = Suc (nat (k - int (Suc i)))" using Suc.hyps(2) by simp
  have nt: "\<not> halving_throws w h
      (issue (DrawImage WorkingCanvas WorkingCanvas (js_div w (Fin 2)) (js_div h (Fin 2))) st)"
    using Suc.prems by simp
  show ?case
    unfolding scaledown_step [OF lt Suc.prems] Suc.hyps(1) [OF m nt] r
    by (simp add: issue_def replicate_append_same)
qed

lemma scaledown_PInf:
  assumes "\<not> halving_throws w h st"
  shows "scaledown i PInf w h st = None"
proof -
  have "n = PInf \<longrightarrow> halving_throws w h st" if "scaledown i n w h st = Some c" for i n w h st c
    using that
  proof (rule scaledown.raw_induct
      [where P = "\<lambda>i n w h st c. n = PInf \<longrightarrow> halving_throws w h st", rotated], goal_cases)
    case (1 sd i n w h st c)
    show ?case
    proof (cases "js_less (Fin (int i)) n \<and> \<not> halving_throws w h st")
      case True
      with 1(2) have "sd (Suc i) n w h
          (issue (DrawImage WorkingCanvas WorkingCanvas (js_div w (Fin 2)) (js_div h (Fin 2))) st)
          = Some c"
        by (simp add: drawImage_halving)
      from 1(1) [OF this] True show ?thesis by simp
    next
      case False
      then show ?thesis by auto
    qed
  qed
  then have "scaledown i PInf w h st \<noteq> Some c" for c using assms by blast
  then show ?thesis by (cases "scaledown i PInf w h st") auto
qed

lemma scaledown_NInf: "scaledown i NInf w h st = Some (Returns st)"
  by (rule scaledown_stop) simp

lemma scaledown_NaN: "scaledown i NaN w h st = Some (Returns st)"
  by (rule scaledown_stop) simp

lemma scaledown_from_0:
  "n \<noteq> PInf \<Longrightarrow> \<not> halving_throws w h st \<Longrightarrow>
   scaledown 0 n w h st =
   Some (Returns (st\<lparr>calls := calls st @
       replicate (iterations n)
         (DrawImage WorkingCanvas WorkingCanvas (js_div w (Fin 2)) (js_div h (Fin 2)))\<rparr>))"
  by (cases n) (simp_all add: scaledown_Fin scaledown_NInf scaledown_NaN)

lemma scaledown_frame:
  assumes "scaledown i n w h st = Some c"
  shows "self (state_of c) = self st \<and> final (state_of c) = final st \<and>
         working (state_of c) = working st \<and>
         set (calls (state_of c)) \<subseteq>
           insert (DrawImage WorkingCanvas WorkingCanvas (js_div w (Fin 2)) (js_div h (Fin 2)))
             (set (calls st))"
  using assms
proof (rule scaledown.raw_induct
    [where P = "\<lambda>i n w h st c.
       self (state_of c) = self st \<and> final (state_of c) = final st \<and>
       working (state_of c) = working st \<and>
       set (calls (state_of c)) \<subseteq>
         insert (DrawImage WorkingCanvas WorkingCanvas (js_div w (Fin 2)) (js_div h (Fin 2)))
           (set (calls st))", rotated], goal_cases)
  case (1 sd i n w h st c)
  let ?c = "DrawImage WorkingCanvas WorkingCanvas (js_div w (Fin 2)) (js_div h (Fin 2))"
  show ?case
  proof (cases "js_less (Fin (int i)) n")
    case False
    with 1(2) show ?thesis by auto
  next
    case True
    show ?thesis
    proof (cases "halving_throws w h st")
      case t: True
      with True 1(2) have "c = Throws ''InvalidStateError'' (issue ?c st)"
        by (simp add: drawImage_halving)
      then show ?thesis by (auto simp: issue_def)
    next
      case f: False
      with True 1(2) have "sd (Suc i) n w h (issue ?c st) = Some c"
        by (simp add: drawImage_halving)
      from 1(1) [OF this] show ?thesis by (auto simp: issue_def)
    qed
  qed
qed

lemma drawImage_cases:
  "drawImage c st = Returns (issue c st) \<or> (\<exists>e. drawImage c st = Throws e (issue c st))"
  by (simp add: drawImage_def split: option.splits)

lemma scale_unscaled:
  "\<not> (width img > maxSize r \<or> height img > maxSize r) \<Longrightarrow>
   scale r img =
   Some (Returns \<lparr>self = r,
         final = \<lparr>cwidth = num (width img), cheight = num (height img)\<rparr>,
         working = None,
         calls = [DrawImage FinalCanvas TheImage (num (width img)) (num (height img))]\<rparr>)"
  by (simp add: scale_def drawImage_from_image issue_def)

lemma scale_diverges:
  assumes "width img > maxSize r \<or> height img > maxSize r"
    and "scale_n r img = PInf"
    and "\<not> (is_finite (js_div (scale_w r img) (Fin 2)) \<and>
            is_finite (js_div (scale_h r img) (Fin 2)) \<and>
            empty_bitmap \<lparr>cwidth = scale_w r img, cheight = scale_h r img\<rparr>)"
  shows "scale r img = None"
proof -
  have "\<not> halving_throws (scale_w r img) (scale_h r img)
      (issue (DrawImage WorkingCanvas TheImage (scale_w r img) (scale_h r img))
        \<lparr>self = r, final = createCanvas,
           working = Some \<lparr>cwidth = scale_w r img, cheight = scale_h r img\<rparr>, calls = []\<rparr>)"
    using assms(3) by (simp add: halving_throws_def issue_def)
  then show ?thesis
    using assms(1,2) by (simp add: scale_def Let_def drawImage_from_image scaledown_PInf)
qed

lemma scale_throws:
  assumes "width img > maxSize r \<or> height img > maxSize r"
    and "js_less (Fin 0) (scale_n r img)"
    and "is_finite (js_div (scale_w r img) (Fin 2))"
    and "is_finite (js_div (scale_h r img) (Fin 2))"
    and "empty_bitmap \<lparr>cwidth = scale_w r img, cheight = scale_h r img\<rparr>"
  shows "scale r img =
     Some (Throws ''InvalidStateError''
       \<lparr>self = r, final = createCanvas,
        working = Some \<lparr>cwidth = scale_w r img, cheight = scale_h r img\<rparr>,
        calls = [DrawImage WorkingCanvas TheImage (scale_w r img) (scale_h r img),
                 DrawImage WorkingCanvas WorkingCanvas
                   (js_div (scale_w r img) (Fin 2)) (js_div (scale_h r img) (Fin 2))]\<rparr>)"
proof -
  let ?st = "issue (DrawImage WorkingCanvas TheImage (scale_w r img) (scale_h r img))
        \<lparr>self = r, final = createCanvas,
           working = Some \<lparr>cwidth = scale_w r img, cheight = scale_h r img\<rparr>, calls = []\<rparr>"
  have t: "halving_throws (scale_w r img) (scale_h r img) ?st"
    using assms(3-5) by (simp add: halving_throws_def issue_def)
  have l: "js_less (Fin (int 0)) (scale_n r img)" using assms(2) by simp
  show ?thesis
    using assms(1)
    by (simp add: scale_def Let_def drawImage_from_image scaledown_throws [OF l t])
       (simp add: issue_def)
qed

lemma scale_scaled:
  assumes "width img > maxSize r \<or> height img > maxSize r"
    and "scale_n r img \<noteq> PInf"
    and "\<not> empty_bitmap \<lparr>cwidth = scale_w r img, cheight = scale_h r img\<rparr>"
  shows "scale r img =
   Some (Returns \<lparr>self = r,
         final = \<lparr>cwidth = cWidth r img, cheight = cHeight r img\<rparr>,
         working = None,
         calls = DrawImage WorkingCanvas TheImage (scale_w r img) (scale_h r img) #
                 replicate (iterations (scale_n r img))
                   (DrawImage WorkingCanvas WorkingCanvas
                      (js_div (scale_w r img) (Fin 2)) (js_div (scale_h r img) (Fin 2))) @
                 [DrawRegion (cWidth r img) (cHeight r img)]\<rparr>)"
proof -
  let ?st = "issue (DrawImage WorkingCanvas TheImage (scale_w r img) (scale_h r img))
        \<lparr>self = r, final = createCanvas,
           working = Some \<lparr>cwidth = scale_w r img, cheight = scale_h r img\<rparr>, calls = []\<rparr>"
  have t: "\<not> halving_throws (scale_w r img) (scale_h r img) ?st"
    using assms(3) by (simp add: halving_throws_def issue_def)
  show ?thesis
    using assms(1,3)
    by (simp add: scale_def Let_def drawImage_from_image scaledown_from_0 [OF assms(2) t])
       (simp add: issue_def drawImage_def)
qed

lemma scale_frame:
  assumes "scale r img = Some c"
  shows "self (state_of c) = r \<and> ToDataURL q \<notin> set (calls (state_of c))"
proof (cases "width img > maxSize r \<or> height img > maxSize r")
  case False
  from scale_unscaled [OF False] assms show ?thesis by auto
next
  case True
  let ?w = "scale_w r img" and ?h = "scale_h r img"
  let ?st = "issue (DrawImage WorkingCanvas TheImage ?w ?h)
        \<lparr>self = r, final = createCanvas,
           working = Some \<lparr>cwidth = ?w, cheight = ?h\<rparr>, calls = []\<rparr>"
  from assms True obtain c1 where c1: "scaledown 0 (scale_n r img) ?w ?h ?st = Some c1"
    by (auto simp: scale_def Let_def drawImage_from_image split: option.splits)
  from scaledown_frame [OF c1]
  have f: "self (state_of c1) = r" "ToDataURL q \<notin> set (calls (state_of c1))"
    by (auto simp: issue_def)
  show ?thesis
  proof (cases c1)
    case (Throws e st1)
    with assms True c1 have "c = c1"
      by (simp add: scale_def Let_def drawImage_from_image)
    with f show ?thesis by simp
  next
    case (Returns st1)
    let ?d = "DrawRegion (cWidth r img) (cHeight r img)"
    let ?st2 = "st1\<lparr>final := \<lparr>cwidth = cWidth r img, cheight = cHeight r img\<rparr>\<rparr>"
    from assms True c1 Returns
    have "c = Returns ((issue ?d ?st2)\<lparr>working := None\<rparr>) \<or> (\<exists>e. c = Throws e (issue ?d ?st2))"
      using drawImage_cases [of ?d ?st2]
      by (auto simp: scale_def Let_def drawImage_from_image)
    with f Returns show ?thesis by (auto simp: issue_def)
  qed
qed

section \<open>The new dimensions\<close>

lemma Math_round_quotient:
  "b \<noteq> 0 \<Longrightarrow>
   Math_round (js_div (js_mul (num a) (num m)) (num b)) =
   Fin (of_int (round (rat_of_nat a * rat_of_nat m / rat_of_nat b)))"
  by (simp add: num_def round_def)

lemma round_quotient_le:
  assumes "a \<le> b" "b \<noteq> 0"
  shows "round (rat_of_nat a * rat_of_nat m / rat_of_nat b) \<le> int m"
proof -
  have "rat_of_nat a * rat_of_nat m / rat_of_nat b \<le> rat_of_nat m"
    using assms by (simp add: field_simps mult_right_mono)
  then have "round (rat_of_nat a * rat_of_nat m / rat_of_nat b) \<le> round (rat_of_nat m)"
    by (rule round_mono)
  moreover have "round (rat_of_nat m) = int m"
    by (metis of_int_of_nat_eq round_of_int)
  ultimately show ?thesis by simp
qed

lemma round_quotient_ge: "0 \<le> round (rat_of_nat a * rat_of_nat m / rat_of_nat b)"
proof -
  have "(0::rat) \<le> rat_of_nat a * rat_of_nat m / rat_of_nat b" by simp
  then have "round (0::rat) \<le> round (rat_of_nat a * rat_of_nat m / rat_of_nat b)"
    by (rule round_mono)
  then show ?thesis by simp
qed

lemma round_of_nat_rat: "round (rat_of_nat m) = int m"
  by (metis of_int_of_nat_eq round_of_int)

lemma cWidth_wide: "height img < width img \<Longrightarrow> cWidth r img = Fin (of_int (int (maxSize r)))"
  by (simp add: cWidth_def num_def)

lemma cHeight_wide:
  "height img < width img \<Longrightarrow>
   cHeight r img =
   Fin (of_int (round (rat_of_nat (height img) * rat_of_nat (maxSize r) / rat_of_nat (width img))))"
  by (simp add: cHeight_def Math_round_quotient)

lemma cWidth_tall:
  "\<not> height img < width img \<Longrightarrow> height img \<noteq> 0 \<Longrightarrow>
   cWidth r img =
   Fin (of_int (round (rat_of_nat (width img) * rat_of_nat (maxSize r) / rat_of_nat (height img))))"
  by (simp add: cWidth_def Math_round_quotient)

lemma cHeight_tall: "\<not> height img < width img \<Longrightarrow> cHeight r img = Fin (of_int (int (maxSize r)))"
  by (simp add: cHeight_def num_def)

lemma wide_case:
  assumes "height img < width img"
  shows "round (rat_of_nat (height img) * rat_of_nat (maxSize r) / rat_of_nat (width img))
         \<le> int (maxSize r)"
proof (rule round_quotient_le)
  show "height img \<le> width img" using assms by simp
  show "width img \<noteq> 0" using assms by simp
qed

lemma tall_case:
  assumes "\<not> height img < width img" "height img \<noteq> 0"
  shows "round (rat_of_nat (width img) * rat_of_nat (maxSize r) / rat_of_nat (height img))
         \<le> int (maxSize r)"
proof (rule round_quotient_le)
  show "width img \<le> height img" using assms by simp
  show "height img \<noteq> 0" using assms by simp
qed

lemma square_case:
  assumes "width img = height img" "height img \<noteq> 0"
  shows "round (rat_of_nat (width img) * rat_of_nat (maxSize r) / rat_of_nat (height img))
         = int (maxSize r)"
proof -
  have "rat_of_nat (width img) * rat_of_nat (maxSize r) / rat_of_nat (height img)
        = rat_of_nat (maxSize r)"
    using assms by simp
  then show ?thesis by (simp only: round_of_nat_rat)
qed

text \<open>
  C4 as stated does not hold. A square image of 600 by 600 pixels with \<open>maxSize = 500\<close>
  gets the new width 500 and the new height 500, so both dimensions equal \<open>maxSize\<close>, not
  exactly one of them; and the test \<open>img.width > img.height\<close> is false for it, so the
  branch that runs is the one that clamps the height.
\<close>

theorem square_image_counterexample:
  "\<not> ((cWidth (Resizer 500 75) \<lparr>width = 600, height = 600, src = ''data:image/png;base64,AAAA''\<rparr>
        = num (maxSize (Resizer 500 75))) \<noteq>
       (cHeight (Resizer 500 75) \<lparr>width = 600, height = 600, src = ''data:image/png;base64,AAAA''\<rparr>
        = num (maxSize (Resizer 500 75)))) \<and>
   \<not> (width \<lparr>width = 600, height = 600, src = ''data:image/png;base64,AAAA''\<rparr>
        > height \<lparr>width = 600, height = 600, src = ''data:image/png;base64,AAAA''\<rparr>)"
  by (simp add: cWidth_def cHeight_def Resizer_def num_def floor_eq_iff)

text \<open>
  C4, amended. When a side of the image exceeds \<open>maxSize\<close>, at least one of the new
  dimensions equals \<open>maxSize\<close>: the width when \<open>width > height\<close>, the height otherwise.
  A square image takes the second branch: its new height is \<open>maxSize\<close> by clamping and
  its new width is \<open>round(width * maxSize / height)\<close>, which is \<open>maxSize\<close> as well.
\<close>

theorem long_side_clamped:
  assumes "width img > maxSize r \<or> height img > maxSize r"
  shows "(cWidth r img = num (maxSize r) \<or> cHeight r img = num (maxSize r)) \<and>
         (width img > height img \<longrightarrow> cWidth r img = num (maxSize r)) \<and>
         (\<not> width img > height img \<longrightarrow> cHeight r img = num (maxSize r)) \<and>
         (width img = height img \<longrightarrow>
            cWidth r img =
              Math_round (js_div (js_mul (num (width img)) (num (maxSize r))) (num (height img))) \<and>
            cWidth r img = num (maxSize r) \<and> cHeight r img = num (maxSize r))"
proof -
  have sq: "cWidth r img = num (maxSize r)" if e: "width img = height img"
  proof -
    have h: "height img \<noteq> 0" using assms e by auto
    have "\<not> height img < width img" using e by simp
    then have "cWidth r img =
      Fin (of_int (round (rat_of_nat (width img) * rat_of_nat (maxSize r) / rat_of_nat (height img))))"
      using h by (rule cWidth_tall)
    also have "\<dots> = Fin (of_int (int (maxSize r)))"
      by (simp only: square_case [OF e h])
    finally show ?thesis by (simp add: num_def)
  qed
  show ?thesis using sq by (auto simp: cWidth_def cHeight_def)
qed

theorem long_side_clamped_witness:
  "(maxSize (Resizer 500 75) < width \<lparr>width = 600, height = 600, src = ''data:image/png;base64,AAAA''\<rparr> \<or>
    maxSize (Resizer 500 75) < height \<lparr>width = 600, height = 600, src = ''data:image/png;base64,AAAA''\<rparr>) \<and>
   width \<lparr>width = 600, height = 600, src = ''data:image/png;base64,AAAA''\<rparr> =
   height \<lparr>width = 600, height = 600, src = ''data:image/png;base64,AAAA''\<rparr> \<and>
   cWidth (Resizer 500 75) \<lparr>width = 600, height = 600, src = ''data:image/png;base64,AAAA''\<rparr> = Fin 500 \<and>
   cHeight (Resizer 500 75) \<lparr>width = 600, height = 600, src = ''data:image/png;base64,AAAA''\<rparr> = Fin 500"
proof -
  let ?r = "Resizer 500 75"
  let ?i = "\<lparr>width = 600, height = 600, src = ''data:image/png;base64,AAAA''\<rparr>"
  have h: "maxSize ?r < width ?i \<or> maxSize ?r < height ?i" by (simp add: Resizer_def)
  have e: "width ?i = height ?i" by simp
  from long_side_clamped [OF h] e
  have "cWidth ?r ?i = num (maxSize ?r) \<and> cHeight ?r ?i = num (maxSize ?r)" by blast
  then show ?thesis using h e by (simp add: Resizer_def num_def)
qed

section \<open>The number of halving steps\<close>

text \<open>
  Whenever the new width is positive, \<open>n\<close> is a natural number, it is the largest one with
  \<open>cWidth * 2^n \<le> img.width\<close>, and it is the floor of the real logarithm to base 2 of
  \<open>img.width / cWidth\<close>.
\<close>

lemma cWidth_le_width:
  assumes "width img > maxSize r \<or> height img > maxSize r" "cWidth r img = Fin c"
  shows "c \<le> rat_of_nat (width img)"
proof (cases "height img < width img")
  case True
  then have "maxSize r < width img" using assms(1) by auto
  moreover have "c = rat_of_nat (maxSize r)"
    using assms(2) True by (simp add: cWidth_def num_def)
  ultimately show ?thesis by simp
next
  case False
  then have h: "maxSize r < height img" "height img \<noteq> 0" using assms(1) by auto
  have "round (rat_of_nat (maxSize r) * rat_of_nat (width img) / rat_of_nat (height img))
        \<le> int (width img)"
    using h by (intro round_quotient_le) simp_all
  moreover have "c = rat_of_int
      (round (rat_of_nat (width img) * rat_of_nat (maxSize r) / rat_of_nat (height img)))"
    using assms(2) cWidth_tall [OF False h(2), of r] by simp
  ultimately have "c \<le> rat_of_int (int (width img))"
    by (simp only: mult.commute [of "rat_of_nat (maxSize r)"] of_int_le_iff)
  then show ?thesis by simp
qed

lemma halving_count_bounds:
  assumes "width img > maxSize r \<or> height img > maxSize r" "cWidth r img = Fin c" "0 < c"
  shows "\<exists>k. scale_n r img = Fin (int k) \<and>
             c * 2 ^ k \<le> rat_of_nat (width img) \<and>
             rat_of_nat (width img) < c * 2 ^ Suc k \<and>
             int k = \<lfloor>log 2 (real (width img) / real_of_rat c)\<rfloor>"
proof -
  define x where "x = rat_of_nat (width img) / c"
  have x: "1 \<le> x" unfolding x_def using cWidth_le_width [OF assms(1,2)] assms(3) by simp
  have "js_div (num (width img)) (cWidth r img) = Fin x"
    unfolding x_def assms(2) using assms(3) by (simp add: num_def)
  moreover have "floor_log2 (Fin x) = Fin (int (halvings x))" using x by simp
  ultimately have n: "scale_n r img = Fin (int (halvings x))" by (simp add: scale_n_def)
  from halvings_bounds [OF x]
  have "2 ^ halvings x \<le> rat_of_nat (width img) / c"
    "rat_of_nat (width img) / c < 2 * 2 ^ halvings x"
    unfolding x_def by simp_all
  then have b: "c * 2 ^ halvings x \<le> rat_of_nat (width img)"
     "rat_of_nat (width img) < c * 2 ^ Suc (halvings x)"
    using assms(3) by (simp_all add: field_simps)
  have "real_of_rat x = real (width img) / real_of_rat c"
    unfolding x_def by (simp add: of_rat_divide)
  with halvings_log [OF x]
  have l: "int (halvings x) = \<lfloor>log 2 (real (width img) / real_of_rat c)\<rfloor>" by simp
  show ?thesis using n b l by blast
qed

text \<open>
  C3. The comment at line 49 of the source states the aim: the biggest \<open>n\<close> with
  \<open>canvas.width * 2^n \<le> img.width\<close>. The computation misses the case of a new width that
  rounds to zero: for an image of 1 by 1001 pixels and \<open>maxSize = 500\<close> the new width is 0
  and \<open>n\<close> is \<open>Infinity\<close>, which is no integer at all.
\<close>

theorem halving_count_not_an_integer:
  "cWidth (Resizer 500 75) \<lparr>width = 1, height = 1001, src = u\<rparr> = Fin 0 \<and>
   scale_n (Resizer 500 75) \<lparr>width = 1, height = 1001, src = u\<rparr> = PInf"
proof -
  let ?r = "Resizer 500 75"
  let ?i = "\<lparr>width = 1, height = 1001, src = u\<rparr>"
  have cw: "cWidth ?r ?i = Fin 0"
    by (simp add: cWidth_def Resizer_def num_def floor_eq_iff)
  have "scale_n ?r ?i = PInf" unfolding scale_n_def cw by (simp add: num_def)
  with cw show ?thesis by simp
qed

section \<open>Canvases without pixels\<close>

text \<open>
  A canvas that is given the size 0 in one direction has no pixels, and so has one that is
  given NaN or an infinity; a size from 1 up to \<open>2^32 - 1\<close> never gives a zero dimension.
\<close>

lemma canvas_dimension_0: "canvas_dimension d (Fin 0) = 0"
  by (simp add: canvas_dimension_def)

lemma canvas_dimension_not_finite:
  "\<not> is_finite v \<Longrightarrow> canvas_dimension d v = 0"
  by (cases v) (simp_all add: canvas_dimension_def)

lemma canvas_dimension_pos:
  assumes "1 \<le> x" "x < 2 ^ 32" "0 < d"
  shows "canvas_dimension d (Fin x) \<noteq> 0"
proof -
  have f: "1 \<le> \<lfloor>x\<rfloor>" using assms(1) by (simp add: le_floor_iff)
  have "\<lfloor>x\<rfloor> < 2 ^ 32" using assms(2) by (simp add: floor_less_iff)
  with f have "\<lfloor>x\<rfloor> mod 2 ^ 32 = \<lfloor>x\<rfloor>" by simp
  with f have "unsigned_long (Fin x) \<noteq> 0" using assms(1) by simp
  then show ?thesis using assms(3) by (simp add: canvas_dimension_def)
qed

lemma pow2_of_nat: "pow2 (Fin (int k)) = Fin (2 ^ k)"
  by (simp only: pow2.simps of_nat_0_le_iff if_True nat_int)

lemma wide_zero_height:
  assumes "0 < maxSize r" "0 < height img" "height img < width img" "cHeight r img = Fin 0"
  shows "maxSize r < width img \<and>
         (\<exists>k. scale_n r img = Fin (int (Suc k)) \<and>
              scale_w r img = Fin (rat_of_nat (maxSize r) * 2 ^ Suc k) \<and>
              scale_h r img = Fin 0)"
proof -
  define x where "x = rat_of_nat (height img) * rat_of_nat (maxSize r) / rat_of_nat (width img)"
  define y where "y = rat_of_nat (width img) / rat_of_nat (maxSize r)"
  have w: "0 < rat_of_nat (width img)" using assms(3) by simp
  have "round x = 0" using assms(4) cHeight_wide [OF assms(3), of r] by (simp add: x_def)
  then have "x < 1 / 2" by (simp add: round_def floor_eq_iff)
  then have "2 * (rat_of_nat (height img) * rat_of_nat (maxSize r)) < rat_of_nat (width img)"
    unfolding x_def using w by (simp add: field_simps)
  moreover have "rat_of_nat (maxSize r) \<le> rat_of_nat (height img) * rat_of_nat (maxSize r)"
  proof -
    have "(1::rat) \<le> rat_of_nat (height img)" using assms(2) by simp
    then have "1 * rat_of_nat (maxSize r) \<le> rat_of_nat (height img) * rat_of_nat (maxSize r)"
      by (rule mult_right_mono) simp
    then show ?thesis by simp
  qed
  ultimately have m2: "2 * rat_of_nat (maxSize r) < rat_of_nat (width img)" by linarith
  then have "rat_of_nat (maxSize r) < rat_of_nat (width img)" by simp
  then have s: "maxSize r < width img" by (simp only: of_nat_less_iff)
  from m2 have y2: "\<not> y < 2" unfolding y_def using assms(1) by (simp add: field_simps)
  then have y1: "1 \<le> y" by simp
  have cw: "cWidth r img = Fin (rat_of_nat (maxSize r))"
    using assms(3) by (simp add: cWidth_def num_def)
  have "js_div (num (width img)) (cWidth r img) = Fin y"
    unfolding cw y_def using assms(1) by (simp add: num_def)
  moreover have "floor_log2 (Fin y) = Fin (int (halvings y))" using y1 by simp
  ultimately have n: "scale_n r img = Fin (int (halvings y))" by (simp add: scale_n_def)
  obtain k where k: "halvings y = Suc k" using y2 by (simp add: halvings.simps [of y])
  have np: "scale_n_pow r img = Fin (2 ^ Suc k)"
    unfolding scale_n_pow_def n k by (rule pow2_of_nat)
  have sw: "scale_w r img = Fin (rat_of_nat (maxSize r) * 2 ^ Suc k)"
    unfolding scale_w_def np cw by simp
  have sh: "scale_h r img = Fin 0"
    unfolding scale_h_def np assms(4) by simp
  show ?thesis using s n k sw sh by auto
qed

lemma wide_zero_height_throws:
  assumes "0 < maxSize r" "0 < height img" "height img < width img" "cHeight r img = Fin 0"
  shows "scale r img =
     Some (Throws ''InvalidStateError''
       \<lparr>self = r, final = createCanvas,
        working = Some \<lparr>cwidth = scale_w r img, cheight = Fin 0\<rparr>,
        calls = [DrawImage WorkingCanvas TheImage (scale_w r img) (Fin 0),
                 DrawImage WorkingCanvas WorkingCanvas
                   (js_div (scale_w r img) (Fin 2)) (Fin 0)]\<rparr>)"
proof -
  from wide_zero_height [OF assms] obtain k where
    k: "scale_n r img = Fin (int (Suc k))"
       "scale_w r img = Fin (rat_of_nat (maxSize r) * 2 ^ Suc k)"
       "scale_h r img = Fin 0"
    by blast
  have s: "maxSize r < width img \<or> maxSize r < height img"
    using wide_zero_height [OF assms] by simp
  have l: "js_less (Fin 0) (scale_n r img)" unfolding k(1) by simp
  have f1: "is_finite (js_div (scale_w r img) (Fin 2))" unfolding k(2) by simp
  have f2: "is_finite (js_div (scale_h r img) (Fin 2))" unfolding k(3) by simp
  have e: "empty_bitmap \<lparr>cwidth = scale_w r img, cheight = scale_h r img\<rparr>"
    unfolding k(3) by (simp add: empty_bitmap_def canvas_dimension_0)
  from scale_throws [OF s l f1 f2 e] show ?thesis unfolding k(3) by simp
qed

lemma tall_zero_width_diverges:
  assumes "0 < width img" "\<not> height img < width img" "maxSize r < height img"
    "cWidth r img = Fin 0"
  shows "js_div (num (width img)) (cWidth r img) = PInf \<and> scale_n r img = PInf \<and>
         scale_w r img = NaN \<and> scale r img = None"
proof -
  have d: "js_div (num (width img)) (cWidth r img) = PInf"
    unfolding assms(4) using assms(1) by (simp add: num_def)
  have n: "scale_n r img = PInf" unfolding scale_n_def d by simp
  have w: "scale_w r img = NaN" unfolding scale_w_def scale_n_pow_def n assms(4) by simp
  have "scale r img = None"
    by (rule scale_diverges) (use assms(3) n w in simp_all)
  with d n w show ?thesis by simp
qed


lemma working_height_bound:
  assumes "width img > maxSize r \<or> height img > maxSize r"
    and "cWidth r img = Fin a" "cHeight r img = Fin b" "1 \<le> a"
    and "a * 2 ^ k \<le> rat_of_nat (width img)"
  shows "b * 2 ^ k \<le> max (rat_of_nat (width img)) (2 * rat_of_nat (height img))"
proof (cases "height img < width img")
  case True
  have "a = rat_of_nat (maxSize r)" using assms(2) True by (simp add: cWidth_def num_def)
  moreover have "b = rat_of_int
      (round (rat_of_nat (height img) * rat_of_nat (maxSize r) / rat_of_nat (width img)))"
    using assms(3) cHeight_wide [OF True, of r] by simp
  moreover have "rat_of_int
      (round (rat_of_nat (height img) * rat_of_nat (maxSize r) / rat_of_nat (width img)))
      \<le> rat_of_int (int (maxSize r))"
    using wide_case [OF True, of r] by (simp only: of_int_le_iff)
  ultimately have "b \<le> a" by simp
  then have "b * 2 ^ k \<le> a * 2 ^ k" by (rule mult_right_mono) simp
  then have "b * 2 ^ k \<le> rat_of_nat (width img)" using assms(5) by (rule order_trans)
  then show ?thesis by (simp only: le_max_iff_disj simp_thms)
next
  case False
  then have h: "height img \<noteq> 0" using assms(1) by auto
  define x where "x = rat_of_nat (width img) * rat_of_nat (maxSize r) / rat_of_nat (height img)"
  have b: "b = rat_of_nat (maxSize r)" using assms(3) False by (simp add: cHeight_def num_def)
  have a: "a = rat_of_int (round x)"
    using assms(2) cWidth_tall [OF False h, of r] by (simp add: x_def)
  have "\<bar>rat_of_int (round x) - x\<bar> \<le> 1 / 2" by (rule of_int_round_abs_le)
  then have "x \<le> 2 * a" using assms(4) unfolding a by linarith
  then have wm: "rat_of_nat (width img) * rat_of_nat (maxSize r)
      \<le> 2 * a * rat_of_nat (height img)"
    unfolding x_def using h by (simp add: field_simps)
  have "rat_of_nat (maxSize r) * (a * 2 ^ k) \<le> rat_of_nat (maxSize r) * rat_of_nat (width img)"
    using assms(5) by (rule mult_left_mono) simp
  with wm have "a * (b * 2 ^ k) \<le> a * (2 * rat_of_nat (height img))"
    unfolding b by (simp add: mult_ac)
  then have "b * 2 ^ k \<le> 2 * rat_of_nat (height img)"
    using assms(4) by (simp add: mult_le_cancel_left_pos)
  then show ?thesis by (simp only: le_max_iff_disj simp_thms)
qed

lemma scale_returns:
  assumes "width img > maxSize r \<or> height img > maxSize r"
    and "cWidth r img = Fin a" "cHeight r img = Fin b" "1 \<le> a" "1 \<le> b"
    and "width img < 2 ^ 32" "height img < 2 ^ 31"
  shows "\<exists>cs. scale r img =
           Some (Returns \<lparr>self = r, final = \<lparr>cwidth = Fin a, cheight = Fin b\<rparr>,
                           working = None, calls = cs\<rparr>)"
proof -
  have a0: "0 < a" using assms(4) by simp
  from halving_count_bounds [OF assms(1,2) a0] obtain k where
    k: "scale_n r img = Fin (int k)" "a * 2 ^ k \<le> rat_of_nat (width img)"
    by blast
  have np: "scale_n_pow r img = Fin (2 ^ k)" unfolding scale_n_pow_def k(1) by (rule pow2_of_nat)
  have sw: "scale_w r img = Fin (a * 2 ^ k)" unfolding scale_w_def np assms(2) by simp
  have sh: "scale_h r img = Fin (b * 2 ^ k)" unfolding scale_h_def np assms(3) by simp
  have p: "(1::rat) \<le> 2 ^ k" by simp
  have "1 * 1 \<le> a * 2 ^ k" by (rule mult_mono) (use assms(4) p in simp_all)
  then have w1: "1 \<le> a * 2 ^ k" by simp
  have "1 * 1 \<le> b * 2 ^ k" by (rule mult_mono) (use assms(5) p in simp_all)
  then have h1: "1 \<le> b * 2 ^ k" by simp
  have wn: "rat_of_nat (width img) < 2 ^ 32"
    using assms(6) by (metis of_nat_less_iff of_nat_numeral of_nat_power)
  have hn: "rat_of_nat (height img) < 2 ^ 31"
    using assms(7) by (metis of_nat_less_iff of_nat_numeral of_nat_power)
  have w2: "a * 2 ^ k < 2 ^ 32" using k(2) wn by linarith
  have "b * 2 ^ k \<le> max (rat_of_nat (width img)) (2 * rat_of_nat (height img))"
    by (rule working_height_bound [OF assms(1,2,3,4) k(2)])
  then have h2: "b * 2 ^ k < 2 ^ 32" using wn hn by (simp add: max_def split: if_splits)
  have ne: "\<not> empty_bitmap \<lparr>cwidth = scale_w r img, cheight = scale_h r img\<rparr>"
    unfolding sw sh
    using canvas_dimension_pos [OF w1 w2, of 300] canvas_dimension_pos [OF h1 h2, of 150]
    by (simp add: empty_bitmap_def)
  have n: "scale_n r img \<noteq> PInf" unfolding k(1) by simp
  from scale_scaled [OF assms(1) n ne] show ?thesis unfolding assms(2,3) by blast
qed

section \<open>Whether scaleAndCompress resolves\<close>

text \<open>
  When the lines before the encoding are left, the promise is resolved; when one of them
  throws, the promise is rejected.
\<close>

lemma scaleAndCompress_resolves:
  assumes "scale r img = Some (Returns st)"
  shows "scaleAndCompress hst r img =
         Some \<lparr>settled = Resolved (toDataURL hst img (final st)
                              (js_div (num (compression (self st))) (Fin 100))),
               obj = self st,
               trace = calls st @ [ToDataURL (js_div (num (compression (self st))) (Fin 100))]\<rparr>"
  using assms by (simp add: scaleAndCompress_def Let_def)

lemma scaleAndCompress_rejects:
  assumes "scale r img = Some (Throws e st)"
  shows "scaleAndCompress hst r img = Some \<lparr>settled = Rejected e, obj = self st, trace = calls st\<rparr>"
  using assms by (simp add: scaleAndCompress_def)

text \<open>
  The bound of the loop is \<open>Infinity\<close> exactly when the new width is zero and the width
  of the image is not, and these are the only calls that do not return.
\<close>

lemma floor_log2_PInf_iff: "floor_log2 x = PInf \<longleftrightarrow> x = PInf"
  by (cases x) simp_all

lemma scale_n_PInf_iff:
  "scale_n r img = PInf \<longleftrightarrow> cWidth r img = Fin 0 \<and> 0 < width img"
proof (cases "cWidth r img")
  case (Fin c)
  then show ?thesis by (auto simp: scale_n_def floor_log2_PInf_iff num_def split: if_splits)
next
  case PInf
  then show ?thesis by (simp add: scale_n_def floor_log2_PInf_iff num_def)
next
  case NInf
  then show ?thesis by (simp add: scale_n_def floor_log2_PInf_iff num_def)
next
  case NaN
  then show ?thesis by (simp add: scale_n_def floor_log2_PInf_iff num_def)
qed

lemma scaledown_ends:
  assumes "n \<noteq> PInf"
  shows "\<exists>c. scaledown i n w h st = Some c"
proof (cases "halving_throws w h st")
  case True
  show ?thesis
  proof (cases "js_less (Fin (int i)) n")
    case l: True
    from scaledown_throws [OF l True] show ?thesis by blast
  next
    case False
    then show ?thesis by (simp add: scaledown_stop)
  qed
next
  case False
  with assms show ?thesis
    by (cases n) (simp_all add: scaledown_Fin scaledown_NInf scaledown_NaN)
qed

lemma scale_ends:
  assumes "scale_n r img \<noteq> PInf"
  shows "\<exists>c. scale r img = Some c"
proof (cases "width img > maxSize r \<or> height img > maxSize r")
  case False
  from scale_unscaled [OF False] show ?thesis by blast
next
  case True
  let ?w = "scale_w r img" and ?h = "scale_h r img"
  let ?st = "issue (DrawImage WorkingCanvas TheImage ?w ?h)
        \<lparr>self = r, final = createCanvas,
           working = Some \<lparr>cwidth = ?w, cheight = ?h\<rparr>, calls = []\<rparr>"
  from scaledown_ends [OF assms] obtain c1 where
    c1: "scaledown 0 (scale_n r img) ?w ?h ?st = Some c1" by blast
  show ?thesis
  proof (cases c1)
    case (Throws e st1)
    with True c1 show ?thesis by (simp add: scale_def Let_def drawImage_from_image)
  next
    case (Returns st1)
    let ?d = "DrawRegion (cWidth r img) (cHeight r img)"
    let ?st2 = "st1\<lparr>final := \<lparr>cwidth = cWidth r img, cheight = cHeight r img\<rparr>\<rparr>"
    from drawImage_cases [of ?d ?st2] True c1 Returns show ?thesis
      by (auto simp: scale_def Let_def drawImage_from_image)
  qed
qed

lemma scaleAndCompress_returns_iff:
  "(\<exists>out. scaleAndCompress hst r img = Some out) \<longleftrightarrow>
   \<not> ((maxSize r < width img \<or> maxSize r < height img) \<and>
      cWidth r img = Fin 0 \<and> 0 < width img)"
proof (cases "scale_n r img = PInf")
  case False
  from scale_ends [OF False] obtain c where "scale r img = Some c" by blast
  then have "\<exists>out. scaleAndCompress hst r img = Some out"
    by (cases c) (simp_all add: scaleAndCompress_def Let_def)
  then show ?thesis using False by (simp add: scale_n_PInf_iff)
next
  case True
  then have z: "cWidth r img = Fin 0" "0 < width img" by (simp_all add: scale_n_PInf_iff)
  show ?thesis
  proof (cases "maxSize r < width img \<or> maxSize r < height img")
    case s: True
    have w: "scale_w r img = NaN" unfolding scale_w_def scale_n_pow_def True z(1) by simp
    have "scale r img = None" by (rule scale_diverges) (use s True w in simp_all)
    then show ?thesis using s z by (simp add: scaleAndCompress_def)
  next
    case s: False
    from scale_unscaled [OF s] show ?thesis using s
      by (simp add: scaleAndCompress_def Let_def)
  qed
qed

text \<open>
  C7. The documentation of \<open>scaleAndCompress\<close> promises a promise whose resolution is a
  data URL. For an image of 1 by 1001 pixels and \<open>maxSize = 500\<close> the bound of the loop is
  \<open>Infinity\<close> and the sizes passed to \<open>drawImage\<close> are not finite, so each call
  returns at once: the loop never ends, line 96 is never reached and the promise is never
  resolved, whatever the reader, the decoder and the encoder of the host answer.
\<close>

theorem scaleAndCompress_never_returns:
  "scaleAndCompress hst (Resizer 500 75) \<lparr>width = 1, height = 1001, src = u\<rparr> = None"
proof -
  let ?r = "Resizer 500 75"
  let ?i = "\<lparr>width = 1, height = 1001, src = u\<rparr>"
  have cw: "cWidth ?r ?i = Fin 0"
    by (simp add: cWidth_def Resizer_def num_def floor_eq_iff)
  have w: "0 < width ?i" and t: "\<not> height ?i < width ?i" and h: "maxSize ?r < height ?i"
    by (simp_all add: Resizer_def)
  from tall_zero_width_diverges [OF w t h cw] have "scale ?r ?i = None" by blast
  then show ?thesis by (simp add: scaleAndCompress_def)
qed

section \<open>The output of a scaled image\<close>

text \<open>
  When a side of the image exceeds \<open>maxSize\<close>, the longer original side is clamped to
  \<open>maxSize\<close> and the shorter one becomes \<open>round(shorter * maxSize / longer)\<close>. The
  longer new side is then exactly \<open>maxSize\<close> and the shorter one is within half a pixel
  of the value that keeps the aspect ratio.
\<close>

lemma target_dimensions:
  assumes "width img > maxSize r \<or> height img > maxSize r"
  shows "\<exists>a b.
      cWidth r img = Fin (of_int a) \<and> cHeight r img = Fin (of_int b) \<and>
      (height img \<le> width img \<longrightarrow>
         a = int (maxSize r) \<and>
         b = round (rat_of_nat (height img) * rat_of_nat (maxSize r) / rat_of_nat (width img))) \<and>
      (width img \<le> height img \<longrightarrow>
         b = int (maxSize r) \<and>
         a = round (rat_of_nat (width img) * rat_of_nat (maxSize r) / rat_of_nat (height img))) \<and>
      max a b = int (maxSize r) \<and>
      \<bar>rat_of_int (min a b) -
        rat_of_nat (min (width img) (height img)) * rat_of_nat (maxSize r) /
        rat_of_nat (max (width img) (height img))\<bar> \<le> 1 / 2"
proof (cases "height img < width img")
  case True
  define a where "a = int (maxSize r)"
  define x where "x = rat_of_nat (height img) * rat_of_nat (maxSize r) / rat_of_nat (width img)"
  define b where "b = round x"
  have cw: "cWidth r img = Fin (of_int a)" unfolding a_def using True by (rule cWidth_wide)
  have ch: "cHeight r img = Fin (of_int b)" unfolding b_def x_def using True by (rule cHeight_wide)
  have le: "b \<le> a" unfolding a_def b_def x_def using True by (rule wide_case)
  have mx: "max a b = a" and mn: "min a b = b" using le by simp_all
  have sides: "min (width img) (height img) = height img"
    "max (width img) (height img) = width img"
    using True by simp_all
  have near: "\<bar>rat_of_int b - x\<bar> \<le> 1 / 2" unfolding b_def by (rule of_int_round_abs_le)
  show ?thesis
  proof (intro exI conjI impI)
    show "cWidth r img = Fin (of_int a)" by (rule cw)
    show "cHeight r img = Fin (of_int b)" by (rule ch)
    show "a = int (maxSize r)" by (rule a_def)
    show "b = round (rat_of_nat (height img) * rat_of_nat (maxSize r) / rat_of_nat (width img))"
      unfolding b_def x_def ..
    show "b = int (maxSize r)" if "width img \<le> height img" using that True by simp
    show "a = round (rat_of_nat (width img) * rat_of_nat (maxSize r) / rat_of_nat (height img))"
      if "width img \<le> height img" using that True by simp
    show "max a b = int (maxSize r)" unfolding mx by (rule a_def)
    show "\<bar>rat_of_int (min a b) -
        rat_of_nat (min (width img) (height img)) * rat_of_nat (maxSize r) /
        rat_of_nat (max (width img) (height img))\<bar> \<le> 1 / 2"
      unfolding mn sides using near unfolding x_def .
  qed
next
  case False
  then have h: "height img \<noteq> 0" using assms by auto
  define b where "b = int (maxSize r)"
  define x where "x = rat_of_nat (width img) * rat_of_nat (maxSize r) / rat_of_nat (height img)"
  define a where "a = round x"
  have cw: "cWidth r img = Fin (of_int a)" unfolding a_def x_def using False h by (rule cWidth_tall)
  have ch: "cHeight r img = Fin (of_int b)" unfolding b_def using False by (rule cHeight_tall)
  have le: "a \<le> b" unfolding a_def b_def x_def using False h by (rule tall_case)
  have mx: "max a b = b" and mn: "min a b = a" using le by simp_all
  have sides: "min (width img) (height img) = width img"
    "max (width img) (height img) = height img"
    using False by simp_all
  have near: "\<bar>rat_of_int a - x\<bar> \<le> 1 / 2" unfolding a_def by (rule of_int_round_abs_le)
  have sq: "a = int (maxSize r)" if "height img \<le> width img"
  proof -
    from that False have "width img = height img" by simp
    then show ?thesis unfolding a_def x_def using h by (rule square_case)
  qed
  show ?thesis
  proof (intro exI conjI impI)
    show "cWidth r img = Fin (of_int a)" by (rule cw)
    show "cHeight r img = Fin (of_int b)" by (rule ch)
    show "a = int (maxSize r)" if "height img \<le> width img" using that by (rule sq)
    show "b = round (rat_of_nat (height img) * rat_of_nat (maxSize r) / rat_of_nat (width img))"
      if "height img \<le> width img"
    proof -
      from that False have e: "width img = height img" by simp
      have "b = a" using sq [OF that] by (simp only: b_def)
      then show ?thesis unfolding a_def x_def e .
    qed
    show "b = int (maxSize r)" by (rule b_def)
    show "a = round (rat_of_nat (width img) * rat_of_nat (maxSize r) / rat_of_nat (height img))"
      unfolding a_def x_def ..
    show "max a b = int (maxSize r)" unfolding mx by (rule b_def)
    show "\<bar>rat_of_int (min a b) -
        rat_of_nat (min (width img) (height img)) * rat_of_nat (maxSize r) /
        rat_of_nat (max (width img) (height img))\<bar> \<le> 1 / 2"
      unfolding mn sides using near unfolding x_def .
  qed
qed

text \<open>
  When both new dimensions are at least 1 (and the image is no larger than the host can
  hold), the call resolves, and the data URL is the encoding of a final canvas of exactly
  the new dimensions, at the quality \<open>compression / 100\<close>.
\<close>

lemma scaled_output:
  assumes "width img > maxSize r \<or> height img > maxSize r"
    and "cWidth r img = Fin a" "cHeight r img = Fin b" "1 \<le> a" "1 \<le> b"
    and "width img < 2 ^ 32" "height img < 2 ^ 31"
  shows "\<exists>out. scaleAndCompress hst r img = Some out \<and>
           settled out =
             Resolved (toDataURL hst img \<lparr>cwidth = Fin a, cheight = Fin b\<rparr>
                         (js_div (num (compression r)) (Fin 100))) \<and>
           max a b = rat_of_nat (maxSize r)"
proof -
  from scale_returns [OF assms] obtain cs where
    "scale r img = Some (Returns \<lparr>self = r, final = \<lparr>cwidth = Fin a, cheight = Fin b\<rparr>,
                           working = None, calls = cs\<rparr>)"
    by blast
  from scaleAndCompress_resolves [OF this, of hst]
  have o: "\<exists>out. scaleAndCompress hst r img = Some out \<and>
           settled out =
             Resolved (toDataURL hst img \<lparr>cwidth = Fin a, cheight = Fin b\<rparr>
                         (js_div (num (compression r)) (Fin 100)))"
    by simp
  from target_dimensions [OF assms(1)] obtain a' b' where
    ab: "cWidth r img = Fin (of_int a')" "cHeight r img = Fin (of_int b')"
      "max a' b' = int (maxSize r)"
    by blast
  from ab(1,2) assms(2,3) have "a = of_int a'" "b = of_int b'" by simp_all
  then have "max a b = rat_of_int (max a' b')" by (simp add: max_def)
  also have "\<dots> = rat_of_nat (maxSize r)" unfolding ab(3) by simp
  finally show ?thesis using o by blast
qed

text \<open>
  C2. The new dimensions are computed as the claim says, and the output has them whenever
  both are at least 1. For an image whose shorter new dimension rounds to zero there is no
  output at all, although the documentation of the constructor promises a returned image
  with both sizes at most \<open>maxSize\<close>: with \<open>maxSize = 500\<close> an image of 1001 by 1 pixels
  gets the new height 0 and a processing canvas of 1000 by 0 pixels, the first
  \<open>drawImage\<close> of the loop throws on that canvas, and the promise is rejected.
\<close>

theorem zero_height_target_rejects:
  "scaleAndCompress hst (Resizer 500 75) \<lparr>width = 1001, height = 1, src = u\<rparr> =
   Some \<lparr>settled = Rejected ''InvalidStateError'',
         obj = Resizer 500 75,
         trace = [DrawImage WorkingCanvas TheImage (Fin 1000) (Fin 0),
                  DrawImage WorkingCanvas WorkingCanvas (Fin 500) (Fin 0)]\<rparr>"
proof -
  let ?r = "Resizer 500 75"
  let ?i = "\<lparr>width = 1001, height = 1, src = u\<rparr>"
  have m: "0 < maxSize ?r" and h: "0 < height ?i" and wd: "height ?i < width ?i"
    by (simp_all add: Resizer_def)
  have ch: "cHeight ?r ?i = Fin 0"
    by (simp add: cHeight_def Resizer_def num_def floor_eq_iff)
  have n: "scale_n ?r ?i = Fin 1"
    by (simp add: scale_n_def cWidth_def Resizer_def num_def halvings.simps)
  have cw: "cWidth ?r ?i = Fin 500" by (simp add: cWidth_def Resizer_def num_def)
  have sw: "scale_w ?r ?i = Fin 1000" unfolding scale_w_def scale_n_pow_def n cw by simp
  from wide_zero_height_throws [OF m h wd ch]
  have "scale ?r ?i =
     Some (Throws ''InvalidStateError''
       \<lparr>self = ?r, final = createCanvas,
        working = Some \<lparr>cwidth = Fin 1000, cheight = Fin 0\<rparr>,
        calls = [DrawImage WorkingCanvas TheImage (Fin 1000) (Fin 0),
                 DrawImage WorkingCanvas WorkingCanvas (Fin 500) (Fin 0)]\<rparr>)"
    unfolding sw by simp
  from scaleAndCompress_rejects [OF this] show ?thesis by simp
qed

section \<open>An image that needs no scaling\<close>

text \<open>
  C5. When neither side exceeds \<open>maxSize\<close> the call takes the branch without scaling: no
  processing canvas is created, the single \<open>drawImage\<close> draws the image into the final
  canvas at its own size, and the promise is resolved with the encoding of a final canvas
  that has exactly the width and the height of the image.
\<close>

theorem no_scale_branch:
  assumes "width img \<le> maxSize r" "height img \<le> maxSize r"
  shows "scaleAndCompress hst r img =
         Some \<lparr>settled =
                 Resolved (toDataURL hst img
                             \<lparr>cwidth = num (width img), cheight = num (height img)\<rparr>
                             (js_div (num (compression r)) (Fin 100))),
               obj = r,
               trace = [DrawImage FinalCanvas TheImage (num (width img)) (num (height img)),
                        ToDataURL (js_div (num (compression r)) (Fin 100))]\<rparr>"
proof -
  have "\<not> (width img > maxSize r \<or> height img > maxSize r)" using assms by simp
  from scaleAndCompress_resolves [OF scale_unscaled [OF this], of hst] show ?thesis by simp
qed

theorem no_scale_branch_witness:
  "(300::nat) \<le> 500 \<and> (200::nat) \<le> 500 \<and>
   scaleAndCompress
     (fixed_host ''data:image/png;base64,AAAAAAAA'' (300, 200) ''data:image/jpeg;base64,AAAA'')
     (Resizer 500 75)
     \<lparr>width = 300, height = 200, src = ''data:image/png;base64,AAAAAAAA''\<rparr> =
   Some \<lparr>settled = Resolved ''data:image/jpeg;base64,AAAA'',
         obj = Resizer 500 75,
         trace = [DrawImage FinalCanvas TheImage (Fin 300) (Fin 200), ToDataURL (Fin (3 / 4))]\<rparr>"
  using no_scale_branch
    [of "\<lparr>width = 300, height = 200, src = ''data:image/png;base64,AAAAAAAA''\<rparr>"
      "Resizer 500 75"
      "fixed_host ''data:image/png;base64,AAAAAAAA'' (300, 200) ''data:image/jpeg;base64,AAAA''"]
  by (simp add: Resizer_def num_def fixed_host_def)

section \<open>A new dimension of zero\<close>



section \<open>What processFile returns\<close>

lemma scaleAndCompress_obj:
  assumes "scaleAndCompress hst r img = Some out"
  shows "obj out = r \<and>
         (\<forall>q. ToDataURL q \<in> set (trace out) \<longrightarrow> q = js_div (num (compression r)) (Fin 100)) \<and>
         (\<forall>v. settled out = Resolved v \<longrightarrow>
            last (trace out) = ToDataURL (js_div (num (compression r)) (Fin 100)))"
proof -
  from assms obtain c where c: "scale r img = Some c"
    by (auto simp: scaleAndCompress_def split: option.splits)
  from scale_frame [OF c]
  have f: "self (state_of c) = r" "\<And>q. ToDataURL q \<notin> set (calls (state_of c))"
    by simp_all
  show ?thesis
  proof (cases c)
    case (Returns st)
    with c assms f show ?thesis by (auto simp: scaleAndCompress_def Let_def)
  next
    case (Throws e st)
    with c assms f show ?thesis by (auto simp: scaleAndCompress_def)
  qed
qed

lemma processFile_cases:
  assumes "processFile hst r f = Some out"
  shows "(readAsDataURL hst f = None \<and>
            settled out = (if \<not> match_image (ftype f)
                           then reject Pending ''The file is not an image.'' else Pending) \<and>
            obj out = r \<and> trace out = [ReadAsDataURL]) \<or>
         (\<exists>result. readAsDataURL hst f = Some result \<and> decode hst result = None \<and>
            settled out = (if \<not> match_image (ftype f)
                           then reject Pending ''The file is not an image.'' else Pending) \<and>
            obj out = r \<and> trace out = [ReadAsDataURL, LoadImage result]) \<or>
         (\<exists>result iw ih res.
            readAsDataURL hst f = Some result \<and> decode hst result = Some (iw, ih) \<and>
            scaleAndCompress hst r \<lparr>width = iw, height = ih, src = result\<rparr> = Some res \<and>
            settled out = resolve
                       (if \<not> match_image (ftype f)
                        then reject Pending ''The file is not an image.'' else Pending)
                       (then_promise (settled res)
                          (\<lambda>generatedURL.
                             if length generatedURL < length result then generatedURL
                             else result)) \<and>
            obj out = obj res \<and>
            trace out = [ReadAsDataURL, LoadImage result] @ trace res)"
proof (cases "readAsDataURL hst f")
  case None
  with assms show ?thesis by (auto simp: processFile_def Let_def)
next
  case (Some result)
  note rd = this
  show ?thesis
  proof (cases "decode hst result")
    case None
    with assms rd show ?thesis by (auto simp: processFile_def Let_def)
  next
    case (Some d)
    obtain iw ih where d: "d = (iw, ih)" by (cases d)
    from assms rd Some d obtain res where
      res: "scaleAndCompress hst r \<lparr>width = iw, height = ih, src = result\<rparr> = Some res"
      by (auto simp: processFile_def Let_def split: option.splits)
    from assms rd Some d res show ?thesis
      by (auto simp: processFile_def Let_def)
  qed
qed

text \<open>A run on a host with fixed answers and an image of 300 by 200 pixels.\<close>

lemma scaleAndCompress_fixed_host:
  "scaleAndCompress (fixed_host result (300, 200) generatedURL) (Resizer 500 75)
     \<lparr>width = 300, height = 200, src = s\<rparr> =
   Some \<lparr>settled = Resolved generatedURL,
         obj = Resizer 500 75,
         trace = [DrawImage FinalCanvas TheImage (Fin 300) (Fin 200), ToDataURL (Fin (3 / 4))]\<rparr>"
proof -
  have "scale (Resizer 500 75) \<lparr>width = 300, height = 200, src = s\<rparr> =
        Some (Returns \<lparr>self = Resizer 500 75,
              final = \<lparr>cwidth = Fin 300, cheight = Fin 200\<rparr>,
              working = None,
              calls = [DrawImage FinalCanvas TheImage (Fin 300) (Fin 200)]\<rparr>)"
    by (simp add: scale_unscaled Resizer_def num_def)
  then show ?thesis
    by (simp add: scaleAndCompress_def fixed_host_def Resizer_def num_def)
qed

lemma processFile_fixed_host:
  "processFile (fixed_host result (300, 200) generatedURL) (Resizer 500 75) f =
   Some \<lparr>settled =
           resolve (if \<not> match_image (ftype f)
                    then reject Pending ''The file is not an image.'' else Pending)
             (Resolved (if length generatedURL < length result then generatedURL else result)),
         obj = Resizer 500 75,
         trace = [ReadAsDataURL, LoadImage result,
                  DrawImage FinalCanvas TheImage (Fin 300) (Fin 200), ToDataURL (Fin (3 / 4))]\<rparr>"
proof -
  have r: "readAsDataURL (fixed_host result (300, 200) generatedURL) f = Some result"
    and d: "decode (fixed_host result (300, 200) generatedURL) result = Some (300, 200)"
    by (simp_all add: fixed_host_def)
  show ?thesis
    by (simp add: processFile_def r d scaleAndCompress_fixed_host Let_def)
qed

text \<open>
  A resolved promise of \<open>processFile\<close> can only come from a file whose type matches, read
  and decoded by the host, for which \<open>scaleAndCompress\<close> resolved.
\<close>

lemma processFile_resolved_only:
  assumes "processFile hst r f = Some out" "settled out = Resolved url"
  shows "match_image (ftype f) \<and>
         (\<exists>result iw ih res gen.
           readAsDataURL hst f = Some result \<and> decode hst result = Some (iw, ih) \<and>
           scaleAndCompress hst r \<lparr>width = iw, height = ih, src = result\<rparr> = Some res \<and>
           settled res = Resolved gen \<and>
           url = (if length gen < length result then gen else result))"
  using processFile_cases [OF assms(1)]
proof (elim disjE exE conjE)
  assume "settled out = (if \<not> match_image (ftype f)
                           then reject Pending ''The file is not an image.'' else Pending)"
  with assms(2) show ?thesis by (simp split: if_splits)
next
  assume "settled out = (if \<not> match_image (ftype f)
                           then reject Pending ''The file is not an image.'' else Pending)"
  with assms(2) show ?thesis by (simp split: if_splits)
next
  fix result iw ih res
  assume c: "readAsDataURL hst f = Some result" "decode hst result = Some (iw, ih)"
    "scaleAndCompress hst r \<lparr>width = iw, height = ih, src = result\<rparr> = Some res"
    "settled out = resolve
                       (if \<not> match_image (ftype f)
                        then reject Pending ''The file is not an image.'' else Pending)
                       (then_promise (settled res)
                          (\<lambda>generatedURL.
                             if length generatedURL < length result then generatedURL
                             else result))"
  from c(4) assms(2) have m: "match_image (ftype f)" by (simp split: if_splits)
  with c(4) assms(2) obtain gen where
    g: "settled res = Resolved gen" "url = (if length gen < length result then gen else result)"
    by (cases "settled res") (simp_all split: if_splits)
  with m c(1-3) show ?thesis by blast
qed

text \<open>
  C1. For a file whose type matches, that the host reads and decodes, and for which
  \<open>scaleAndCompress\<close> resolves, \<open>processFile\<close> resolves with the generated data URL
  when that is strictly shorter than the original one and with the original one otherwise:
  the length of the result is the minimum of the two lengths.
\<close>

theorem processFile_returns_shorter:
  assumes "match_image (ftype f)"
    and "readAsDataURL hst f = Some result"
    and "decode hst result = Some (iw, ih)"
    and "scaleAndCompress hst r \<lparr>width = iw, height = ih, src = result\<rparr> = Some res"
    and "settled res = Resolved generatedURL"
  shows "\<exists>out url. processFile hst r f = Some out \<and> settled out = Resolved url \<and>
           url = (if length generatedURL < length result then generatedURL else result) \<and>
           length url = min (length generatedURL) (length result)"
  using assms by (simp add: processFile_def min_def)

theorem processFile_returns_shorter_witness:
  "(match_image (ftype \<lparr>ftype = ''image/png'', fdata = ''PNG''\<rparr>) \<and>
    (\<exists>out. processFile
        (fixed_host ''data:image/png;base64,AAAAAAAA'' (300, 200) ''data:image/jpeg;base64,AAAA'')
        (Resizer 500 75) \<lparr>ftype = ''image/png'', fdata = ''PNG''\<rparr> = Some out \<and>
      settled out = Resolved ''data:image/jpeg;base64,AAAA'')) \<and>
   (\<exists>out. processFile
        (fixed_host ''data:image/png;base64,AA'' (300, 200) ''data:image/jpeg;base64,AAAA'')
        (Resizer 500 75) \<lparr>ftype = ''image/png'', fdata = ''PNG''\<rparr> = Some out \<and>
      settled out = Resolved ''data:image/png;base64,AA'')"
proof -
  let ?f = "\<lparr>ftype = ''image/png'', fdata = ''PNG''\<rparr>"
  let ?g = "''data:image/jpeg;base64,AAAA''"
  let ?res = "\<lparr>settled = Resolved ?g,
         obj = Resizer 500 75,
         trace = [DrawImage FinalCanvas TheImage (Fin 300) (Fin 200), ToDataURL (Fin (3 / 4))]\<rparr>"
  have m: "match_image (ftype ?f)" by simp
  have s: "settled ?res = Resolved ?g" by simp
  have long: "\<exists>out. processFile (fixed_host ''data:image/png;base64,AAAAAAAA'' (300, 200) ?g)
        (Resizer 500 75) ?f = Some out \<and> settled out = Resolved ?g"
  proof -
    let ?h = "fixed_host ''data:image/png;base64,AAAAAAAA'' (300, 200) ?g"
    have r: "readAsDataURL ?h ?f = Some ''data:image/png;base64,AAAAAAAA''"
      and d: "decode ?h ''data:image/png;base64,AAAAAAAA'' = Some (300, 200)"
      by (simp_all add: fixed_host_def)
    have sc: "scaleAndCompress ?h (Resizer 500 75)
        \<lparr>width = 300, height = 200, src = ''data:image/png;base64,AAAAAAAA''\<rparr> = Some ?res"
      by (rule scaleAndCompress_fixed_host)
    from processFile_returns_shorter [OF m r d sc s] show ?thesis by simp
  qed
  have short: "\<exists>out. processFile (fixed_host ''data:image/png;base64,AA'' (300, 200) ?g)
        (Resizer 500 75) ?f = Some out \<and> settled out = Resolved ''data:image/png;base64,AA''"
  proof -
    let ?h = "fixed_host ''data:image/png;base64,AA'' (300, 200) ?g"
    have r: "readAsDataURL ?h ?f = Some ''data:image/png;base64,AA''"
      and d: "decode ?h ''data:image/png;base64,AA'' = Some (300, 200)"
      by (simp_all add: fixed_host_def)
    have sc: "scaleAndCompress ?h (Resizer 500 75)
        \<lparr>width = 300, height = 200, src = ''data:image/png;base64,AA''\<rparr> = Some ?res"
      by (rule scaleAndCompress_fixed_host)
    from processFile_returns_shorter [OF m r d sc s] show ?thesis by simp
  qed
  from m long short show ?thesis by blast
qed

text \<open>
  C10. When the generated data URL is exactly as long as the original one, the comparison
  \<open>generatedURL.length < e.target.result.length\<close> is false and the promise is resolved
  with the original data URL.
\<close>

theorem processFile_tie_returns_original:
  assumes "match_image (ftype f)"
    and "readAsDataURL hst f = Some result"
    and "decode hst result = Some (iw, ih)"
    and "scaleAndCompress hst r \<lparr>width = iw, height = ih, src = result\<rparr> = Some res"
    and "settled res = Resolved generatedURL"
    and "length generatedURL = length result"
  shows "\<exists>out. processFile hst r f = Some out \<and> settled out = Resolved result"
  using assms by (simp add: processFile_def)

theorem processFile_tie_returns_original_witness:
  "match_image (ftype \<lparr>ftype = ''image/png'', fdata = ''PNG''\<rparr>) \<and>
   length ''data:image/jpeg;base64,AAAA'' = length ''data:image/png;base64,AAAAA'' \<and>
   (\<exists>out. processFile
            (fixed_host ''data:image/png;base64,AAAAA'' (300, 200) ''data:image/jpeg;base64,AAAA'')
            (Resizer 500 75) \<lparr>ftype = ''image/png'', fdata = ''PNG''\<rparr> = Some out \<and>
          settled out = Resolved ''data:image/png;base64,AAAAA'')"
proof -
  let ?h = "fixed_host ''data:image/png;base64,AAAAA'' (300, 200) ''data:image/jpeg;base64,AAAA''"
  let ?f = "\<lparr>ftype = ''image/png'', fdata = ''PNG''\<rparr>"
  let ?res = "\<lparr>settled = Resolved ''data:image/jpeg;base64,AAAA'',
         obj = Resizer 500 75,
         trace = [DrawImage FinalCanvas TheImage (Fin 300) (Fin 200), ToDataURL (Fin (3 / 4))]\<rparr>"
  have m: "match_image (ftype ?f)" by simp
  have r: "readAsDataURL ?h ?f = Some ''data:image/png;base64,AAAAA''"
    and d: "decode ?h ''data:image/png;base64,AAAAA'' = Some (300, 200)"
    by (simp_all add: fixed_host_def)
  have sc: "scaleAndCompress ?h (Resizer 500 75)
      \<lparr>width = 300, height = 200, src = ''data:image/png;base64,AAAAA''\<rparr> = Some ?res"
    by (rule scaleAndCompress_fixed_host)
  have s: "settled ?res = Resolved ''data:image/jpeg;base64,AAAA''" by simp
  have l: "length ''data:image/jpeg;base64,AAAA'' = length ''data:image/png;base64,AAAAA''"
    by simp
  from processFile_tie_returns_original [OF m r d sc s l] m l show ?thesis by blast
qed

section \<open>A file that is not an image\<close>

text \<open>The promise of a file whose type does not match is rejected, and the reader is started.\<close>

lemma non_image_rejected:
  assumes "\<not> match_image (ftype f)" "processFile hst r f = Some out"
  shows "settled out = Rejected ''The file is not an image.'' \<and> hd (trace out) = ReadAsDataURL"
  using processFile_cases [OF assms(2)] assms(1) by auto

text \<open>
  C6. A file whose declared type does not match is rejected, as the claim says, but the
  \<open>reject\<close> of line 108 is not followed by a \<open>return\<close>: the reader is started, the data
  URL is assigned to \<open>img.src\<close>, and when the content decodes (here a file declared as
  \<open>text/plain\<close>) the image is drawn and encoded as well. The decode and the render that
  the claim excludes are attempted.
\<close>

theorem non_image_still_processed:
  "processFile (fixed_host ''data:text/plain;base64,AAAA'' (300, 200) ''data:image/jpeg;base64,AAAA'')
     (Resizer 500 75) \<lparr>ftype = ''text/plain'', fdata = ''PNG''\<rparr> =
   Some \<lparr>settled = Rejected ''The file is not an image.'',
         obj = Resizer 500 75,
         trace = [ReadAsDataURL, LoadImage ''data:text/plain;base64,AAAA'',
                  DrawImage FinalCanvas TheImage (Fin 300) (Fin 200), ToDataURL (Fin (3 / 4))]\<rparr>"
  by (simp add: processFile_fixed_host)

section \<open>The configuration\<close>

text \<open>
  C8. \<open>maxSize\<close> and \<open>compression\<close> are set by the constructor, and a call of
  \<open>scaleAndCompress\<close> or \<open>processFile\<close> that returns leaves the object as it was
  constructed; every quality passed to \<open>toDataURL\<close> is the compression given to the
  constructor, divided by 100, and a resolved call of \<open>scaleAndCompress\<close> ends with that
  encoding.
\<close>

theorem configuration_unchanged:
  "(\<forall>out. scaleAndCompress hst (Resizer m c) img = Some out \<longrightarrow>
       obj out = Resizer m c \<and> maxSize (obj out) = m \<and> compression (obj out) = c \<and>
       (\<forall>q. ToDataURL q \<in> set (trace out) \<longrightarrow> q = js_div (num c) (Fin 100)) \<and>
       (\<forall>v. settled out = Resolved v \<longrightarrow>
          last (trace out) = ToDataURL (js_div (num c) (Fin 100)))) \<and>
   (\<forall>out. processFile hst (Resizer m c) f = Some out \<longrightarrow>
       obj out = Resizer m c \<and> maxSize (obj out) = m \<and> compression (obj out) = c)"
proof (intro conjI allI impI)
  fix out
  assume a: "scaleAndCompress hst (Resizer m c) img = Some out"
  have cc: "compression (Resizer m c) = c" by (simp add: Resizer_def)
  from scaleAndCompress_obj [OF a]
  have o: "obj out = Resizer m c"
    and t: "\<And>q. ToDataURL q \<in> set (trace out) \<Longrightarrow> q = js_div (num c) (Fin 100)"
    and l: "\<And>v. settled out = Resolved v \<Longrightarrow>
          last (trace out) = ToDataURL (js_div (num c) (Fin 100))"
    unfolding cc by blast+
  show "obj out = Resizer m c" by (rule o)
  show "maxSize (obj out) = m" "compression (obj out) = c" by (simp_all add: o Resizer_def)
  show "q = js_div (num c) (Fin 100)" if "ToDataURL q \<in> set (trace out)" for q
    using that by (rule t)
  show "last (trace out) = ToDataURL (js_div (num c) (Fin 100))" if "settled out = Resolved v" for v
    using that by (rule l)
next
  fix out
  assume a: "processFile hst (Resizer m c) f = Some out"
  have o: "obj out = Resizer m c"
    using processFile_cases [OF a] scaleAndCompress_obj by fastforce
  show "obj out = Resizer m c" by (rule o)
  show "maxSize (obj out) = m" "compression (obj out) = c" by (simp_all add: o Resizer_def)
qed

theorem configuration_unchanged_witness:
  "(\<exists>out. scaleAndCompress
            (fixed_host ''data:image/png;base64,AAAAAAAA'' (300, 200) ''data:image/jpeg;base64,AAAA'')
            (Resizer 500 75)
            \<lparr>width = 300, height = 200, src = ''data:image/png;base64,AAAAAAAA''\<rparr> = Some out \<and>
          obj out = Resizer 500 75 \<and> maxSize (obj out) = 500 \<and> compression (obj out) = 75 \<and>
          ToDataURL (js_div (num 75) (Fin 100)) \<in> set (trace out) \<and>
          settled out = Resolved ''data:image/jpeg;base64,AAAA'' \<and>
          last (trace out) = ToDataURL (js_div (num 75) (Fin 100))) \<and>
   (\<exists>out. processFile
            (fixed_host ''data:image/png;base64,AAAAAAAA'' (300, 200) ''data:image/jpeg;base64,AAAA'')
            (Resizer 500 75) \<lparr>ftype = ''image/png'', fdata = ''PNG''\<rparr> = Some out \<and>
          obj out = Resizer 500 75 \<and> maxSize (obj out) = 500 \<and> compression (obj out) = 75)"
proof -
  let ?h = "fixed_host ''data:image/png;base64,AAAAAAAA'' (300, 200) ''data:image/jpeg;base64,AAAA''"
  let ?i = "\<lparr>width = 300, height = 200, src = ''data:image/png;base64,AAAAAAAA''\<rparr>"
  let ?f = "\<lparr>ftype = ''image/png'', fdata = ''PNG''\<rparr>"
  obtain o1 where o1: "scaleAndCompress ?h (Resizer 500 75) ?i = Some o1"
    and s1: "settled o1 = Resolved ''data:image/jpeg;base64,AAAA''"
    and t1: "ToDataURL (js_div (num 75) (Fin 100)) \<in> set (trace o1)"
    using scaleAndCompress_fixed_host
      [of "''data:image/png;base64,AAAAAAAA''" "''data:image/jpeg;base64,AAAA''"
        "''data:image/png;base64,AAAAAAAA''"]
    by (simp add: num_def)
  obtain o2 where o2: "processFile ?h (Resizer 500 75) ?f = Some o2"
    using processFile_fixed_host by blast
  from configuration_unchanged [of ?h 500 75 ?i ?f] o1 s1 t1 o2 show ?thesis by blast
qed

end
